theory Spec2Isabelle
  imports Complex_Main "HOL-Library.Word" "HOL-Library.Multiset"
begin

unbundle bit_operations_syntax

section \<open>The n-gram distance of \<open>FunctionsStringSimilarity.cpp\<close>\<close>

text \<open>
  \<open>NgramDistanceImpl<N, CodePoint, UTF8, CaseInsensitive>\<close> counts the n-grams of a needle
  in a table of 65536 16-bit counters indexed by a 16-bit hash, then walks the n-grams of
  each haystack, adjusting a running \<open>distance\<close> and the table, and puts the table back.

  The embedding follows the source function by function. Pointers into a byte buffer are
  a buffer (a list of bytes) and an index; \<open>size_t\<close> and \<open>UInt64\<close> values that the code
  computes with are \<open>64 word\<close>, so that \<open>-N + 1\<close>, \<open>--distance\<close> and \<open>++distance\<close> wrap
  as they do in C++; sizes that are only compared are \<open>nat\<close>. The two function pointers
  \<open>read_code_points\<close> and \<open>hash_functor\<close> are parameters, as in the source. A reader
  returns the number it returns in C++ together with the window and the position it
  leaves behind.
\<close>

type_synonym UInt8 = "8 word"
type_synonym UInt16 = "16 word"
type_synonym UInt32 = "32 word"
type_synonym UInt64 = "64 word"

text \<open>\<open>using NgramStats = UInt16[map_size]\<close> with \<open>map_size = 1u << 16\<close>: one counter for
  every value of a \<open>UInt16\<close> index.\<close>

type_synonym NgramStats = "UInt16 \<Rightarrow> UInt16"

type_synonym 'cp reader = "'cp list \<Rightarrow> UInt8 list \<Rightarrow> nat \<Rightarrow> nat \<Rightarrow> nat \<times> 'cp list \<times> nat"

definition max_string_size :: nat where
  "max_string_size = 2 ^ 15"

definition default_padding :: nat where
  "default_padding = 16"

text \<open>\<open>simultaneously_codepoints_num = default_padding + N - 1\<close>.\<close>

definition simultaneously_codepoints_num :: "nat \<Rightarrow> nat" where
  "simultaneously_codepoints_num N = default_padding + N - 1"

subsection \<open>Memory reads\<close>

text \<open>\<open>memcpy(dst, pos, n)\<close> from the byte buffer: the \<open>n\<close> bytes at \<open>pos\<close>. The callers
  pad their buffers so that the bytes exist; none of the bytes past \<open>end\<close> reaches a hash.\<close>

definition load_bytes :: "UInt8 list \<Rightarrow> nat \<Rightarrow> nat \<Rightarrow> UInt8 list" where
  "load_bytes buf pos n = map (\<lambda>k. buf ! (pos + k)) [0..<n]"

text \<open>The bytes of a little-endian \<open>UInt32\<close> (\<open>unalignedLoad<UInt32>\<close>, and \<open>memcpy(&res, pos, n)\<close>
  into a zeroed \<open>UInt32\<close>).\<close>

fun le_UInt32 :: "UInt8 list \<Rightarrow> UInt32" where
  "le_UInt32 [] = 0"
| "le_UInt32 (b # bs) = ucast b OR push_bit 8 (le_UInt32 bs)"

subsection \<open>Hashes\<close>

text \<open>\<open>intHashCRC32\<close> lives in \<open>Common/HashTable/Hash.h\<close>, which is not among the sources:
  it is a parameter of both hash functions. \<open>UTF8Hash\<close> is the branch without
  \<open>__SSE4_2__\<close>.\<close>

definition ASCIIHash :: "(UInt64 \<Rightarrow> UInt64) \<Rightarrow> UInt8 list \<Rightarrow> UInt16" where
  "ASCIIHash intHashCRC32 code_points =
     ucast (intHashCRC32 (ucast (le_UInt32 (take 4 code_points))) AND 0xFFFF)"

definition UTF8Hash :: "(UInt64 \<Rightarrow> UInt64) \<Rightarrow> UInt32 list \<Rightarrow> UInt16" where
  "UTF8Hash intHashCRC32 code_points =
     (let combined = push_bit 32 (ucast (code_points ! 0) :: UInt64) OR ucast (code_points ! 1)
      in ucast ((intHashCRC32 combined XOR intHashCRC32 (ucast (code_points ! 2))) AND 0xFFFF))"

subsection \<open>The ASCII reader (\<open>N = 4\<close>, \<open>CodePoint = UInt8\<close>)\<close>

text \<open>\<open>std::tolower\<close> on a byte, in the C locale.\<close>

definition tolower :: "UInt8 \<Rightarrow> UInt8" where
  "tolower c = (if 0x41 \<le> c \<and> c \<le> 0x5A then c + 0x20 else c)"

text \<open>\<open>unrollLowering<Offset>(cont, index_sequence<0 .. n-1>)\<close>:
  \<open>cont[Offset + I] = tolower(cont[Offset + I])\<close> for every \<open>I < n\<close>.\<close>

definition unrollLowering :: "nat \<Rightarrow> nat \<Rightarrow> UInt8 list \<Rightarrow> UInt8 list" where
  "unrollLowering Offset n cont =
     take Offset cont @ map tolower (take n (drop Offset cont)) @ drop (Offset + n) cont"

text \<open>With \<open>N = 4\<close>: \<open>padding_offset = default_padding - N + 1 = 13\<close> and
  \<open>roundUpToPowerOfTwoOrZero(N - 1) = 4\<close>. The result is \<open>(found, code_points, pos)\<close>.
  Both callers read only at a position \<open>pos \<le> end\<close> (the first read is at \<open>data\<close>, the later
  ones are guarded by \<open>start < end\<close>), so \<open>pos - end\<close> is at most 13 after the move and
  \<open>default_padding - (pos - end)\<close> does not wrap; on naturals the subtraction is the same
  there.\<close>

definition readASCIICodePoints :: "bool \<Rightarrow> UInt8 reader" where
  "readASCIICodePoints CaseInsensitive code_points buf pos end =
     (let c1 = take 4 (drop 13 code_points) @ drop 4 code_points;
          c2 = take 3 c1 @ load_bytes buf pos 16;
          c3 = (if CaseInsensitive then unrollLowering 3 13 c2 else c2);
          pos' = pos + 13
      in if pos' > end then (16 - (pos' - end), c3, pos') else (16, c3, pos'))"

subsection \<open>The UTF-8 reader (\<open>N = 3\<close>, \<open>CodePoint = UInt32\<close>)\<close>

text \<open>One pass of the \<open>while\<close> body: the unit read at \<open>pos\<close> and the clamped length.
  \<open>UTF8::seqLength\<close> (\<open>Common/UTF8Helpers.h\<close>) is not among the sources: it is the
  parameter \<open>seqLength\<close>.\<close>

definition utf8_res :: "bool \<Rightarrow> nat \<Rightarrow> UInt8 list \<Rightarrow> UInt32" where
  "utf8_res CaseInsensitive len bytes4 =
     (let res = (if len = 1 then le_UInt32 (take 1 bytes4)
                 else if len = 2 then le_UInt32 (take 2 bytes4)
                 else if len = 3 then le_UInt32 (take 3 bytes4)
                 else le_UInt32 (take 4 bytes4))
      in if CaseInsensitive then
           (if len = 4 then res AND NOT (push_bit 29 1) AND NOT (push_bit 21 1)
                              AND NOT (push_bit 13 1) AND NOT (push_bit 5 1)
            else if len = 3 then res AND NOT (push_bit 21 1) AND NOT (push_bit 13 1)
                              AND NOT (push_bit 5 1)
            else if len = 2 then res AND NOT (push_bit 13 1) AND NOT (push_bit 5 1)
            else res AND NOT (push_bit 5 1))
         else res)"

function readUTF8_while ::
  "(UInt8 \<Rightarrow> nat) \<Rightarrow> bool \<Rightarrow> UInt8 list \<Rightarrow> nat \<Rightarrow> UInt32 list \<Rightarrow> nat \<Rightarrow> nat
     \<Rightarrow> nat \<times> UInt32 list \<times> nat" where
  "readUTF8_while seqLength CaseInsensitive buf end code_points pos num =
     (if num < 16 \<and> pos < end then
        (let length0 = seqLength (buf ! pos);
             len = (if pos + length0 > end then end - pos else length0);
             res = utf8_res CaseInsensitive len (load_bytes buf pos 4)
         in readUTF8_while seqLength CaseInsensitive buf end
              (code_points[num := res]) (pos + len) (num + 1))
      else (num, code_points, pos))"
  by pat_completeness auto
termination
  by (relation "measure (\<lambda>(sl, ci, buf, e, cp, pos, num). 16 - num)") auto

declare readUTF8_while.simps [simp del]

text \<open>With \<open>N = 3\<close>: the copy moves \<open>roundUpToPowerOfTwoOrZero(N - 1) = 2\<close> units from
  \<open>code_points + default_padding - N + 1 = code_points + 14\<close>.\<close>

definition readUTF8CodePoints :: "(UInt8 \<Rightarrow> nat) \<Rightarrow> bool \<Rightarrow> UInt32 reader" where
  "readUTF8CodePoints seqLength CaseInsensitive code_points buf pos end =
     (let c1 = take 2 (drop 14 code_points) @ drop 2 code_points
      in readUTF8_while seqLength CaseInsensitive buf end c1 pos 2)"

subsection \<open>The needle pass\<close>

text \<open>\<open>for (; i + N <= found; ++i) ++ngram_stats[hash_functor(cp + i)];\<close>\<close>

function needle_for ::
  "nat \<Rightarrow> ('cp list \<Rightarrow> UInt16) \<Rightarrow> 'cp list \<Rightarrow> nat \<Rightarrow> nat \<Rightarrow> NgramStats \<Rightarrow> NgramStats" where
  "needle_for N hash_functor cp i found ngram_stats =
     (if i + N \<le> found then
        needle_for N hash_functor cp (i + 1) found
          (ngram_stats (hash_functor (drop i cp) := ngram_stats (hash_functor (drop i cp)) + 1))
      else ngram_stats)"
  by pat_completeness auto
termination
  by (relation "measure (\<lambda>(N, hf, cp, i, found, st). found + 1 - i)") auto

declare needle_for.simps [simp del]

text \<open>The \<open>do ... while (start < end && (found = read_code_points(cp, start, end)))\<close>
  loop, entered after a read. It ends only if the reader moves \<open>start\<close> forward, which the
  loop does not check: not returning is the value \<open>None\<close>.\<close>

partial_function (option) needle_loop ::
  "nat \<Rightarrow> 'cp reader \<Rightarrow> ('cp list \<Rightarrow> UInt16) \<Rightarrow> UInt8 list \<Rightarrow> nat
     \<Rightarrow> 'cp list \<Rightarrow> nat \<Rightarrow> nat \<Rightarrow> nat \<Rightarrow> UInt64 \<Rightarrow> NgramStats \<Rightarrow> (UInt64 \<times> NgramStats) option" where
  "needle_loop N read_code_points hash_functor buf end cp start found i len ngram_stats =
     (let len' = len + (of_nat found - of_nat N + 1);
          ngram_stats' = needle_for N hash_functor cp i found ngram_stats
      in if start < end then
           (case read_code_points cp buf start end of
              (found', cp', start') \<Rightarrow>
                if found' \<noteq> 0 then
                  needle_loop N read_code_points hash_functor buf end cp' start' found' 0 len'
                    ngram_stats'
                else Some (len', ngram_stats'))
         else Some (len', ngram_stats'))"

declare needle_loop.simps [code]

text \<open>\<open>data\<close> is the buffer \<open>buf\<close> at index \<open>data\<close>. The result is the returned count and
  the table.\<close>

definition calculateNeedleStats ::
  "nat \<Rightarrow> 'cp::zero reader \<Rightarrow> ('cp list \<Rightarrow> UInt16) \<Rightarrow> UInt8 list \<Rightarrow> nat \<Rightarrow> nat \<Rightarrow> NgramStats
     \<Rightarrow> (UInt64 \<times> NgramStats) option" where
  "calculateNeedleStats N read_code_points hash_functor buf data size' ngram_stats =
     (if size' < N then Some (0, ngram_stats)
      else
        (let start = data;
             end = data + size';
             cp = replicate (simultaneously_codepoints_num N) 0
         in case read_code_points cp buf start end of
              (found, cp', start') \<Rightarrow>
                needle_loop N read_code_points hash_functor buf end cp' start' found (N - 1)
                  (- of_nat N + 1) ngram_stats))"

subsection \<open>The haystack pass\<close>

text \<open>The inner \<open>for\<close> loop of \<open>calculateHaystackStatsAndMetric\<close>. \<open>ngram_storage\<close> with
  \<open>ngram_cnt\<close> is the list of the hashes stored so far. The array of the source has
  \<open>max(size, 256)\<close> slots; the list has no bound, and a pass over \<open>size\<close> bytes stores at most
  \<open>size\<close> hashes (\<open>length_ngram_hashes_le\<close> below).\<close>

function haystack_for ::
  "nat \<Rightarrow> ('cp list \<Rightarrow> UInt16) \<Rightarrow> 'cp list \<Rightarrow> nat \<Rightarrow> nat \<Rightarrow> NgramStats \<times> UInt64 \<times> UInt16 list
     \<Rightarrow> NgramStats \<times> UInt64 \<times> UInt16 list" where
  "haystack_for N hash_functor cp iter found (ngram_stats, distance, ngram_storage) =
     (if iter + N \<le> found then
        (let hash = hash_functor (drop iter cp);
             distance' = (if 0 < sint (ngram_stats hash) then distance - 1 else distance + 1)
         in haystack_for N hash_functor cp (iter + 1) found
              (ngram_stats (hash := ngram_stats hash - 1), distance', ngram_storage @ [hash]))
      else (ngram_stats, distance, ngram_storage))"
  by pat_completeness auto
termination
  by (relation "measure (\<lambda>(N, hf, cp, iter, found, s). found + 1 - iter)") auto

declare haystack_for.simps [simp del]

partial_function (option) haystack_loop ::
  "nat \<Rightarrow> 'cp reader \<Rightarrow> ('cp list \<Rightarrow> UInt16) \<Rightarrow> UInt8 list \<Rightarrow> nat
     \<Rightarrow> 'cp list \<Rightarrow> nat \<Rightarrow> nat \<Rightarrow> nat \<Rightarrow> NgramStats \<times> UInt64 \<times> UInt16 list
     \<Rightarrow> (NgramStats \<times> UInt64 \<times> UInt16 list) option" where
  "haystack_loop N read_code_points hash_functor buf end cp start found iter s =
     (let s' = haystack_for N hash_functor cp iter found s
      in if start < end then
           (case read_code_points cp buf start end of
              (found', cp', start') \<Rightarrow>
                if found' \<noteq> 0 then
                  haystack_loop N read_code_points hash_functor buf end cp' start' found' 0 s'
                else Some s')
         else Some s')"

declare haystack_loop.simps [code]

text \<open>\<open>for (size_t i = 0; i < ngram_cnt; ++i) ++ngram_stats[ngram_storage[i]];\<close>\<close>

fun restore :: "UInt16 list \<Rightarrow> NgramStats \<Rightarrow> NgramStats" where
  "restore [] ngram_stats = ngram_stats"
| "restore (h # ngram_storage) ngram_stats =
     restore ngram_storage (ngram_stats (h := ngram_stats h + 1))"

text \<open>The result is the returned \<open>ngram_cnt\<close>, the table, and \<open>distance\<close>.\<close>

definition calculateHaystackStatsAndMetric ::
  "nat \<Rightarrow> 'cp::zero reader \<Rightarrow> ('cp list \<Rightarrow> UInt16) \<Rightarrow> UInt8 list \<Rightarrow> nat \<Rightarrow> nat \<Rightarrow> NgramStats
     \<Rightarrow> UInt64 \<Rightarrow> (UInt64 \<times> NgramStats \<times> UInt64) option" where
  "calculateHaystackStatsAndMetric N read_code_points hash_functor buf data size' ngram_stats
       distance =
     (let start = data;
          end = data + size';
          cp = replicate (simultaneously_codepoints_num N) 0
      in case read_code_points cp buf start end of
           (found, cp', start') \<Rightarrow>
             (case haystack_loop N read_code_points hash_functor buf end cp' start' found (N - 1)
                     (ngram_stats, distance, []) of
                None \<Rightarrow> None
              | Some (ngram_stats', distance', ngram_storage) \<Rightarrow>
                  Some (of_nat (length ngram_storage), restore ngram_storage ngram_stats',
                        distance')))"

subsection \<open>The drivers\<close>

text \<open>The \<open>Float32\<close> results. \<open>Float32_div distance m\<close> is
  \<open>distance * 1.f / std::max(first_size + second_size, size_t(1))\<close> with its two integer
  operands, and \<open>Float32_one\<close> is the literal \<open>1.f\<close>. Two results with the same operands are the
  same \<open>Float32\<close>; \<open>Float32_value\<close> is the quotient before rounding.\<close>

datatype Float32 = Float32_div UInt64 UInt64 | Float32_one

fun Float32_value :: "Float32 \<Rightarrow> rat" where
  "Float32_value (Float32_div distance m) = of_nat (unat distance) / of_nat (unat m)"
| "Float32_value Float32_one = 1"

text \<open>\<open>constant_constant(data, needle, res)\<close>: both strings are resized by
  \<open>default_padding\<close> zero bytes.\<close>

definition constant_constant ::
  "nat \<Rightarrow> 'cp::zero reader \<Rightarrow> ('cp list \<Rightarrow> UInt16) \<Rightarrow> UInt8 list \<Rightarrow> UInt8 list \<Rightarrow> Float32 option" where
  "constant_constant N read_code_points hash_functor data needle =
     (let common_stats = (\<lambda>_. 0);
          needle_size = length needle;
          data_size = length data;
          needle' = needle @ replicate default_padding 0;
          data' = data @ replicate default_padding 0
      in case calculateNeedleStats N read_code_points hash_functor needle' 0 needle_size
                common_stats of
           None \<Rightarrow> None
         | Some (second_size, common_stats') \<Rightarrow>
             (let distance = second_size
              in if data_size \<le> max_string_size then
                   (case calculateHaystackStatsAndMetric N read_code_points hash_functor data' 0
                           data_size common_stats' distance of
                      None \<Rightarrow> None
                    | Some (first_size, common_stats'', distance') \<Rightarrow>
                        Some (Float32_div distance' (max (first_size + second_size) 1)))
                 else Some Float32_one))"

text \<open>The row loop of \<open>vector_constant\<close>; the state is the table, \<open>distance\<close>,
  \<open>prev_offset\<close> and the results written so far. \<open>offsets[i] - prev_offset - 1\<close> is
  \<open>size_t\<close> arithmetic.\<close>

fun vector_constant_rows ::
  "nat \<Rightarrow> 'cp::zero reader \<Rightarrow> ('cp list \<Rightarrow> UInt16) \<Rightarrow> UInt8 list \<Rightarrow> UInt64 \<Rightarrow> UInt64 list
     \<Rightarrow> NgramStats \<times> UInt64 \<times> UInt64 \<times> Float32 list
     \<Rightarrow> (NgramStats \<times> UInt64 \<times> UInt64 \<times> Float32 list) option" where
  "vector_constant_rows N read_code_points hash_functor data needle_stats_size [] s = Some s"
| "vector_constant_rows N read_code_points hash_functor data needle_stats_size (offset # offsets)
       (common_stats, distance, prev_offset, res) =
     (let haystack = unat prev_offset;
          haystack_size = offset - prev_offset - 1
      in if haystack_size \<le> of_nat max_string_size then
           (case calculateHaystackStatsAndMetric N read_code_points hash_functor data haystack
                   (unat haystack_size) common_stats distance of
              None \<Rightarrow> None
            | Some (haystack_stats_size, common_stats', distance') \<Rightarrow>
                vector_constant_rows N read_code_points hash_functor data needle_stats_size offsets
                  (common_stats', needle_stats_size, offset,
                   res @ [Float32_div distance' (max (haystack_stats_size + needle_stats_size) 1)]))
         else
           vector_constant_rows N read_code_points hash_functor data needle_stats_size offsets
             (common_stats, needle_stats_size, offset, res @ [Float32_one]))"

definition vector_constant ::
  "nat \<Rightarrow> 'cp::zero reader \<Rightarrow> ('cp list \<Rightarrow> UInt16) \<Rightarrow> UInt8 list \<Rightarrow> UInt64 list \<Rightarrow> UInt8 list
     \<Rightarrow> Float32 list option" where
  "vector_constant N read_code_points hash_functor data offsets needle =
     (let common_stats = (\<lambda>_. 0);
          needle_size = length needle;
          needle' = needle @ replicate default_padding 0
      in case calculateNeedleStats N read_code_points hash_functor needle' 0 needle_size
                common_stats of
           None \<Rightarrow> None
         | Some (needle_stats_size, common_stats') \<Rightarrow>
             (case vector_constant_rows N read_code_points hash_functor data needle_stats_size
                     offsets (common_stats', needle_stats_size, 0, []) of
                None \<Rightarrow> None
              | Some (common_stats'', distance, prev_offset, res) \<Rightarrow> Some res))"


section \<open>Specification-level notions\<close>

text \<open>The n-grams of a sequence of code-point units: every window of \<open>N\<close> consecutive
  units, from left to right.\<close>

definition ngrams :: "nat \<Rightarrow> 'a list \<Rightarrow> 'a list list" where
  "ngrams N us = map (\<lambda>j. take N (drop j us)) [0 ..< length us + 1 - N]"

text \<open>The units the two readers make of a byte string: one per byte (lowered when
  case-insensitive), or one per UTF-8 sequence as \<open>readUTF8CodePoints\<close> cuts them. A
  sequence length of 0 is stepped over as 1 here, so that the function is total; the
  theorems about the UTF-8 reader assume \<open>seqLength\<close> is never 0.\<close>

definition ascii_units :: "bool \<Rightarrow> UInt8 list \<Rightarrow> UInt8 list" where
  "ascii_units CaseInsensitive bs = (if CaseInsensitive then map tolower bs else bs)"

function utf8_units :: "(UInt8 \<Rightarrow> nat) \<Rightarrow> bool \<Rightarrow> UInt8 list \<Rightarrow> UInt32 list" where
  "utf8_units seqLength CaseInsensitive bs =
     (if bs = [] then []
      else
        (let len = min (seqLength (hd bs)) (length bs)
         in utf8_res CaseInsensitive len (take 4 bs)
              # utf8_units seqLength CaseInsensitive (drop (max len 1) bs)))"
  by pat_completeness auto
termination
  by (relation "measure (\<lambda>(sl, ci, bs). length bs)") auto

declare utf8_units.simps [simp del]

text \<open>The effect of the body of the inner \<open>for\<close> loop of
  \<open>calculateHaystackStatsAndMetric\<close> on the table and on \<open>distance\<close>, for a list of
  hashes in the order the loop meets them.\<close>

fun score :: "UInt16 list \<Rightarrow> NgramStats \<times> UInt64 \<Rightarrow> NgramStats \<times> UInt64" where
  "score [] s = s"
| "score (h # hs) (ngram_stats, distance) =
     score hs (ngram_stats (h := ngram_stats h - 1),
               if 0 < sint (ngram_stats h) then distance - 1 else distance + 1)"

text \<open>What the loops need of a reader: it carries the last \<open>N - 1\<close> units of a full window
  to the front, appends the next units of the bytes before \<open>end\<close> (at most \<open>17 - N\<close> of
  them), returns how many positions of the window are valid, and moves forward.\<close>

definition reader_ok :: "nat \<Rightarrow> 'cp reader \<Rightarrow> (UInt8 list \<Rightarrow> 'cp list) \<Rightarrow> bool" where
  "reader_ok N rd dec \<longleftrightarrow>
     2 \<le> N \<and> N \<le> 9 \<and> dec [] = [] \<and>
     (\<forall>cp buf pos e found cp' pos'.
        pos \<le> e \<longrightarrow> e \<le> length buf \<longrightarrow> length cp = 15 + N \<longrightarrow>
        rd cp buf pos e = (found, cp', pos') \<longrightarrow>
          found = N - 1 + min (17 - N) (length (dec (take (e - pos) (drop pos buf)))) \<and>
          length cp' = 15 + N \<and>
          take (N - 1) cp' = take (N - 1) (drop (17 - N) cp) \<and>
          take (found - (N - 1)) (drop (N - 1) cp') =
            take (17 - N) (dec (take (e - pos) (drop pos buf))) \<and>
          (pos' < e \<longleftrightarrow> 17 - N < length (dec (take (e - pos) (drop pos buf)))) \<and>
          dec (take (e - pos') (drop pos' buf)) =
            drop (17 - N) (dec (take (e - pos) (drop pos buf))) \<and>
          (pos < e \<longrightarrow> pos < pos'))"

text \<open>The closed form of what the needle pass returns on a reader that meets \<open>reader_ok\<close>:
  the count as the code computes it (in \<open>size_t\<close> arithmetic) and the table.\<close>

definition needle_stats ::
  "nat \<Rightarrow> (UInt8 list \<Rightarrow> 'cp list) \<Rightarrow> ('cp list \<Rightarrow> UInt16) \<Rightarrow> UInt8 list \<Rightarrow> UInt64 \<times> NgramStats" where
  "needle_stats N dec hf needle =
     (if length needle < N then (0, \<lambda>_. 0)
      else (of_nat (length (dec needle)) - of_nat N + 1,
            restore (map hf (ngrams N (dec needle))) (\<lambda>_. 0)))"

text \<open>The closed form of one result: the oversize test, and the two operands of the
  division.\<close>

definition row_result ::
  "nat \<Rightarrow> (UInt8 list \<Rightarrow> 'cp list) \<Rightarrow> ('cp list \<Rightarrow> UInt16) \<Rightarrow> UInt64 \<times> NgramStats \<Rightarrow> UInt8 list
     \<Rightarrow> Float32" where
  "row_result N dec hf ns row =
     (if length row \<le> max_string_size then
        Float32_div (snd (score (map hf (ngrams N (dec row))) (snd ns, fst ns)))
          (max (of_nat (length (ngrams N (dec row))) + fst ns) 1)
      else Float32_one)"

text \<open>The column convention of \<open>vector_constant\<close>: \<open>offsets[i]\<close> is one past the terminator
  of row \<open>i\<close>, so row \<open>i\<close> is the \<open>offsets[i] - prev_offset - 1\<close> bytes at \<open>prev_offset\<close>.
  \<open>offsets_ok\<close> says that the offsets increase and stay inside the buffer.\<close>

fun column_rows :: "UInt8 list \<Rightarrow> UInt64 \<Rightarrow> UInt64 list \<Rightarrow> UInt8 list list" where
  "column_rows data prev_offset [] = []"
| "column_rows data prev_offset (offset # offsets) =
     take (unat (offset - prev_offset - 1)) (drop (unat prev_offset) data)
       # column_rows data offset offsets"

fun offsets_ok :: "UInt8 list \<Rightarrow> UInt64 \<Rightarrow> UInt64 list \<Rightarrow> bool" where
  "offsets_ok data prev_offset [] = True"
| "offsets_ok data prev_offset (offset # offsets) =
     (prev_offset < offset \<and> unat offset \<le> length data \<and> offsets_ok data offset offsets)"

definition hash_local :: "nat \<Rightarrow> ('cp list \<Rightarrow> UInt16) \<Rightarrow> bool" where
  "hash_local N hf \<longleftrightarrow> (\<forall>w. hf w = hf (take N w))"

subsection \<open>The four instantiations\<close>

text \<open>\<open>dispatchSearcher\<close> passes \<open>readASCIICodePoints, ASCIIHash\<close> when \<open>UTF8\<close> is false and
  \<open>readUTF8CodePoints, UTF8Hash\<close> otherwise; the instantiations at the end of the file are
  \<open>NgramDistanceImpl<4, UInt8, false, _>\<close> and \<open>NgramDistanceImpl<3, UInt32, true, _>\<close>.
  The functions below are the members of \<open>NgramDistanceImpl\<close> at these instantiations,
  with the template arguments \<open>UTF8\<close> and \<open>CaseInsensitive\<close> as parameters.\<close>

definition dispatch_calculateNeedleStats ::
  "(UInt64 \<Rightarrow> UInt64) \<Rightarrow> (UInt8 \<Rightarrow> nat) \<Rightarrow> bool \<Rightarrow> bool \<Rightarrow> UInt8 list \<Rightarrow> nat \<Rightarrow> nat \<Rightarrow> NgramStats
     \<Rightarrow> (UInt64 \<times> NgramStats) option" where
  "dispatch_calculateNeedleStats intHashCRC32 seqLength UTF8 CaseInsensitive buf data size'
       ngram_stats =
     (if \<not> UTF8 then
        calculateNeedleStats 4 (readASCIICodePoints CaseInsensitive) (ASCIIHash intHashCRC32)
          buf data size' ngram_stats
      else
        calculateNeedleStats 3 (readUTF8CodePoints seqLength CaseInsensitive)
          (UTF8Hash intHashCRC32) buf data size' ngram_stats)"

definition dispatch_calculateHaystackStatsAndMetric ::
  "(UInt64 \<Rightarrow> UInt64) \<Rightarrow> (UInt8 \<Rightarrow> nat) \<Rightarrow> bool \<Rightarrow> bool \<Rightarrow> UInt8 list \<Rightarrow> nat \<Rightarrow> nat \<Rightarrow> NgramStats
     \<Rightarrow> UInt64 \<Rightarrow> (UInt64 \<times> NgramStats \<times> UInt64) option" where
  "dispatch_calculateHaystackStatsAndMetric intHashCRC32 seqLength UTF8 CaseInsensitive buf data
       size' ngram_stats distance =
     (if \<not> UTF8 then
        calculateHaystackStatsAndMetric 4 (readASCIICodePoints CaseInsensitive)
          (ASCIIHash intHashCRC32) buf data size' ngram_stats distance
      else
        calculateHaystackStatsAndMetric 3 (readUTF8CodePoints seqLength CaseInsensitive)
          (UTF8Hash intHashCRC32) buf data size' ngram_stats distance)"

definition dispatch_constant_constant ::
  "(UInt64 \<Rightarrow> UInt64) \<Rightarrow> (UInt8 \<Rightarrow> nat) \<Rightarrow> bool \<Rightarrow> bool \<Rightarrow> UInt8 list \<Rightarrow> UInt8 list
     \<Rightarrow> Float32 option" where
  "dispatch_constant_constant intHashCRC32 seqLength UTF8 CaseInsensitive data needle =
     (if \<not> UTF8 then
        constant_constant 4 (readASCIICodePoints CaseInsensitive) (ASCIIHash intHashCRC32)
          data needle
      else
        constant_constant 3 (readUTF8CodePoints seqLength CaseInsensitive)
          (UTF8Hash intHashCRC32) data needle)"

definition dispatch_vector_constant_rows ::
  "(UInt64 \<Rightarrow> UInt64) \<Rightarrow> (UInt8 \<Rightarrow> nat) \<Rightarrow> bool \<Rightarrow> bool \<Rightarrow> UInt8 list \<Rightarrow> UInt64 \<Rightarrow> UInt64 list
     \<Rightarrow> NgramStats \<times> UInt64 \<times> UInt64 \<times> Float32 list
     \<Rightarrow> (NgramStats \<times> UInt64 \<times> UInt64 \<times> Float32 list) option" where
  "dispatch_vector_constant_rows intHashCRC32 seqLength UTF8 CaseInsensitive data
       needle_stats_size offsets s =
     (if \<not> UTF8 then
        vector_constant_rows 4 (readASCIICodePoints CaseInsensitive) (ASCIIHash intHashCRC32)
          data needle_stats_size offsets s
      else
        vector_constant_rows 3 (readUTF8CodePoints seqLength CaseInsensitive)
          (UTF8Hash intHashCRC32) data needle_stats_size offsets s)"

definition dispatch_vector_constant ::
  "(UInt64 \<Rightarrow> UInt64) \<Rightarrow> (UInt8 \<Rightarrow> nat) \<Rightarrow> bool \<Rightarrow> bool \<Rightarrow> UInt8 list \<Rightarrow> UInt64 list
     \<Rightarrow> UInt8 list \<Rightarrow> Float32 list option" where
  "dispatch_vector_constant intHashCRC32 seqLength UTF8 CaseInsensitive data offsets needle =
     (if \<not> UTF8 then
        vector_constant 4 (readASCIICodePoints CaseInsensitive) (ASCIIHash intHashCRC32)
          data offsets needle
      else
        vector_constant 3 (readUTF8CodePoints seqLength CaseInsensitive)
          (UTF8Hash intHashCRC32) data offsets needle)"

text \<open>\<open>N\<close>, the number of code-point units and the hashes of the n-grams of a byte string,
  at each instantiation.\<close>

definition ngram_N :: "bool \<Rightarrow> nat" where
  "ngram_N UTF8 = (if UTF8 then 3 else 4)"

definition unit_count :: "(UInt8 \<Rightarrow> nat) \<Rightarrow> bool \<Rightarrow> bool \<Rightarrow> UInt8 list \<Rightarrow> nat" where
  "unit_count seqLength UTF8 CaseInsensitive bs =
     (if UTF8 then length (utf8_units seqLength CaseInsensitive bs)
      else length (ascii_units CaseInsensitive bs))"

definition ngram_hashes ::
  "(UInt64 \<Rightarrow> UInt64) \<Rightarrow> (UInt8 \<Rightarrow> nat) \<Rightarrow> bool \<Rightarrow> bool \<Rightarrow> UInt8 list \<Rightarrow> UInt16 list" where
  "ngram_hashes intHashCRC32 seqLength UTF8 CaseInsensitive bs =
     (if UTF8 then map (UTF8Hash intHashCRC32) (ngrams 3 (utf8_units seqLength CaseInsensitive bs))
      else map (ASCIIHash intHashCRC32) (ngrams 4 (ascii_units CaseInsensitive bs)))"

text \<open>The closed forms at the four instantiations.\<close>

definition dispatch_needle_stats ::
  "(UInt64 \<Rightarrow> UInt64) \<Rightarrow> (UInt8 \<Rightarrow> nat) \<Rightarrow> bool \<Rightarrow> bool \<Rightarrow> UInt8 list \<Rightarrow> UInt64 \<times> NgramStats" where
  "dispatch_needle_stats intHashCRC32 seqLength UTF8 CaseInsensitive needle =
     (if length needle < ngram_N UTF8 then (0, \<lambda>_. 0)
      else (of_nat (unit_count seqLength UTF8 CaseInsensitive needle) - of_nat (ngram_N UTF8) + 1,
            restore (ngram_hashes intHashCRC32 seqLength UTF8 CaseInsensitive needle) (\<lambda>_. 0)))"

definition dispatch_row_result ::
  "(UInt64 \<Rightarrow> UInt64) \<Rightarrow> (UInt8 \<Rightarrow> nat) \<Rightarrow> bool \<Rightarrow> bool \<Rightarrow> UInt64 \<times> NgramStats \<Rightarrow> UInt8 list
     \<Rightarrow> Float32" where
  "dispatch_row_result intHashCRC32 seqLength UTF8 CaseInsensitive ns row =
     (if length row \<le> max_string_size then
        Float32_div
          (snd (score (ngram_hashes intHashCRC32 seqLength UTF8 CaseInsensitive row)
                  (snd ns, fst ns)))
          (max (of_nat (length (ngram_hashes intHashCRC32 seqLength UTF8 CaseInsensitive row))
                + fst ns) 1)
      else Float32_one)"

subsection \<open>Concrete parameters for the closed examples\<close>

text \<open>Modelled from the spec: \<open>UTF8::seqLength\<close> of \<open>Common/UTF8Helpers.h\<close>, which is not
  among the sources, as the leading-byte length table (1, 2, 3 or 4 bytes) of UTF-8.\<close>

definition seqLength_table :: "UInt8 \<Rightarrow> nat" where
  "seqLength_table first_octet =
     (if first_octet < 0xC0 then 1 else if first_octet < 0xE0 then 2
      else if first_octet < 0xF0 then 3 else 4)"

text \<open>A stand-in for \<open>intHashCRC32\<close> of \<open>Common/HashTable/Hash.h\<close>, which is not among the
  sources either: the 64-bit finalizer \<open>intHash64\<close> that it falls back to without
  \<open>__SSE4_2__\<close>. It only makes the examples closed terms; no theorem depends on its
  values.\<close>

definition intHash64 :: "UInt64 \<Rightarrow> UInt64" where
  "intHash64 x =
     (let x1 = x XOR drop_bit 33 x;
          x2 = x1 * 0xff51afd7ed558ccd;
          x3 = x2 XOR drop_bit 33 x2;
          x4 = x3 * 0xc4ceb9fe1a85ec53
      in x4 XOR drop_bit 33 x4)"

section \<open>The loops visit the n-grams\<close>

lemma restore_append: "restore (xs @ ys) st = restore ys (restore xs st)"
  by (induction xs arbitrary: st) auto

lemma score_append: "score (xs @ ys) s = score ys (score xs s)"
  by (induction xs arbitrary: s) (auto simp: split_paired_all)

lemma restore_count: "restore hs st x = st x + of_nat (count_list hs x)"
  by (induction hs arbitrary: st) auto

lemma score_count: "fst (score hs (st, d)) x = st x - of_nat (count_list hs x)"
  by (induction hs arbitrary: st d) auto

lemma restore_score: "restore hs (fst (score hs (st, d))) = st"
  by (rule ext) (simp add: restore_count score_count)

lemma needle_for_eq:
  "needle_for N hf cp i found st = restore (map (\<lambda>j. hf (drop j cp)) [i ..< found + 1 - N]) st"
proof (induction N hf cp i found st rule: needle_for.induct)
  case (1 N hf cp i found st)
  show ?case
  proof (cases "i + N \<le> found")
    case True
    then have u: "[i ..< found + 1 - N] = i # [i + 1 ..< found + 1 - N]"
      by (simp add: upt_conv_Cons)
    have "needle_for N hf cp i found st =
        needle_for N hf cp (i + 1) found (st (hf (drop i cp) := st (hf (drop i cp)) + 1))"
      by (subst needle_for.simps) (simp only: True if_True)
    also have "\<dots> = restore (map (\<lambda>j. hf (drop j cp)) [i + 1 ..< found + 1 - N])
        (st (hf (drop i cp) := st (hf (drop i cp)) + 1))"
      by (rule 1 [OF True])
    also have "\<dots> = restore (map (\<lambda>j. hf (drop j cp)) [i ..< found + 1 - N]) st"
      by (simp only: u list.map restore.simps)
    finally show ?thesis .
  next
    case False
    then have "[i ..< found + 1 - N] = []" by simp
    then show ?thesis using False by (subst needle_for.simps) simp
  qed
qed

lemma haystack_for_eq:
  "haystack_for N hf cp i found (st, d, tr) =
     (fst (score (map (\<lambda>j. hf (drop j cp)) [i ..< found + 1 - N]) (st, d)),
      snd (score (map (\<lambda>j. hf (drop j cp)) [i ..< found + 1 - N]) (st, d)),
      tr @ map (\<lambda>j. hf (drop j cp)) [i ..< found + 1 - N])"
proof (induction N hf cp i found "(st, d, tr)" arbitrary: st d tr rule: haystack_for.induct)
  case (1 N hf cp i found st d tr)
  show ?case
  proof (cases "i + N \<le> found")
    case True
    then have u: "[i ..< found + 1 - N] = i # [i + 1 ..< found + 1 - N]"
      by (simp add: upt_conv_Cons)
    let ?h = "hf (drop i cp)"
    let ?d = "if 0 < sint (st ?h) then d - 1 else d + 1"
    have "haystack_for N hf cp i found (st, d, tr) =
        haystack_for N hf cp (i + 1) found (st (?h := st ?h - 1), ?d, tr @ [?h])"
      by (subst haystack_for.simps) (simp only: True if_True Let_def)
    also have "\<dots> =
       (fst (score (map (\<lambda>j. hf (drop j cp)) [i + 1 ..< found + 1 - N]) (st (?h := st ?h - 1), ?d)),
        snd (score (map (\<lambda>j. hf (drop j cp)) [i + 1 ..< found + 1 - N]) (st (?h := st ?h - 1), ?d)),
        (tr @ [?h]) @ map (\<lambda>j. hf (drop j cp)) [i + 1 ..< found + 1 - N])"
      by (rule 1 [OF True refl refl])
    finally show ?thesis
      by (simp only: u list.map score.simps append_assoc append.simps)
  next
    case False
    then have "[i ..< found + 1 - N] = []" by simp
    then show ?thesis using False by (subst haystack_for.simps) simp
  qed
qed

lemma length_ngrams [simp]: "length (ngrams N us) = length us + 1 - N"
  by (simp add: ngrams_def)

lemma ngrams_nth: "k + N \<le> length us \<Longrightarrow> 1 \<le> N \<Longrightarrow> ngrams N us ! k = take N (drop k us)"
  unfolding ngrams_def by (subst nth_map) (simp_all del: upt_Suc)

lemma window_hashes:
  assumes loc: "\<And>w. hf w = hf (take N w)" and f: "found \<le> length cp" and N: "1 \<le> N"
  shows "map (\<lambda>j. hf (drop j cp)) [i ..< found + 1 - N] = map hf (ngrams N (drop i (take found cp)))"
proof (rule nth_equalityI)
  show "length (map (\<lambda>j. hf (drop j cp)) [i ..< found + 1 - N]) = length (map hf (ngrams N (drop i (take found cp))))"
    using f N by (simp add: ngrams_def)
next
  fix k assume "k < length (map (\<lambda>j. hf (drop j cp)) [i ..< found + 1 - N])"
  then have k: "i + k + N \<le> found" by simp
  have "drop k (drop i (take found cp)) = take (found - (i + k)) (drop (i + k) cp)"
    by (simp add: drop_take add.commute)
  then have eq: "take N (drop k (drop i (take found cp))) = take N (drop (i + k) cp)"
    using k by (simp add: min_def)
  have kk: "k + N \<le> length (drop i (take found cp))" using k f by simp
  have k1: "i + k < found + 1 - N" and k2: "k < length [i ..< found + 1 - N]" using k N by simp_all
  have L: "map (\<lambda>j. hf (drop j cp)) [i ..< found + 1 - N] ! k = hf (drop (i + k) cp)"
    by (simp only: nth_map [OF k2] nth_upt [OF k1])
  have R: "map hf (ngrams N (drop i (take found cp))) ! k = hf (take N (drop (i + k) cp))"
    using kk N eq by (simp add: ngrams_nth del: drop_drop)
  show "map (\<lambda>j. hf (drop j cp)) [i ..< found + 1 - N] ! k = map hf (ngrams N (drop i (take found cp))) ! k"
    unfolding L R by (rule loc)
qed

lemma ngrams_append:
  assumes "1 \<le> N" "N - 1 \<le> length xs"
  shows "ngrams N (xs @ ys) = ngrams N xs @ ngrams N (drop (length xs - (N - 1)) xs @ ys)"
proof (rule nth_equalityI)
  show "length (ngrams N (xs @ ys)) = length (ngrams N xs @ ngrams N (drop (length xs - (N - 1)) xs @ ys))"
    using assms by simp
next
  fix k assume "k < length (ngrams N (xs @ ys))"
  then have k: "k + N \<le> length xs + length ys" using assms by simp
  then have e: "k + N \<le> length (xs @ ys)" by simp
  have lhs: "ngrams N (xs @ ys) ! k = take N (drop k (xs @ ys))"
    using e assms(1) by (rule ngrams_nth)
  show "ngrams N (xs @ ys) ! k = (ngrams N xs @ ngrams N (drop (length xs - (N - 1)) xs @ ys)) ! k"
  proof (cases "k + N \<le> length xs")
    case True
    then have a: "k < length (ngrams N xs)" using assms by simp
    have "take N (drop k (xs @ ys)) = take N (drop k xs)" using True by simp
    also have "\<dots> = ngrams N xs ! k" using True assms(1) by (simp add: ngrams_nth)
    finally have "ngrams N (xs @ ys) ! k = ngrams N xs ! k" using lhs by simp
    then show ?thesis using a by (simp only: nth_append if_True)
  next
    case False
    define m where "m = length xs - (N - 1)"
    have m: "m + (N - 1) = length xs" "m \<le> k" using assms False by (auto simp: m_def)
    have a: "\<not> k < length (ngrams N xs)" using False assms by simp
    have b: "k - length (ngrams N xs) = k - m" using assms by (simp add: m_def)
    have c: "(k - m) + N \<le> length (drop m xs @ ys)" using m k assms by simp
    have "drop k (xs @ ys) = drop (k - m) (drop m (xs @ ys))" using m by simp
    also have "drop m (xs @ ys) = drop m xs @ ys" using m by simp
    finally have d: "drop k (xs @ ys) = drop (k - m) (drop m xs @ ys)" .
    have r: "ngrams N (drop m xs @ ys) ! (k - m) = take N (drop (k - m) (drop m xs @ ys))"
      using c assms(1) by (rule ngrams_nth)
    have "ngrams N (xs @ ys) ! k = ngrams N (drop m xs @ ys) ! (k - m)"
      by (simp only: lhs d r)
    then show ?thesis using a b by (simp only: nth_append if_False m_def)
  qed
qed

lemma word_count_step:
  "2 \<le> N \<Longrightarrow> (of_nat (N - 1 + n) :: UInt64) - of_nat N + 1 = of_nat n"
proof -
  assume "2 \<le> N"
  then obtain M where "N = Suc M" by (cases N) auto
  then show ?thesis by simp
qed

lemma reader_step:
  assumes ok: "reader_ok N rd dec" and e: "e \<le> length buf" and lcp: "length cp = 15 + N"
    and se: "start \<le> e" and rd: "rd cp buf start e = (found', cp', start')"
  defines "us \<equiv> dec (take (e - start) (drop start buf))"
    and "rest \<equiv> dec (take (e - start') (drop start' buf))"
  shows "found' \<noteq> 0" "found' \<le> 16" "length cp' = 15 + N" "start < e \<Longrightarrow> start < start'"
    "start' < e \<Longrightarrow> found' = 16"
    "take found' cp' @ rest = drop (17 - N) (take 16 cp) @ us"
    "found' - (N - 1) + length rest = length us"
    "found' = N - 1 + (found' - (N - 1))"
proof -
  have N: "2 \<le> N" "N \<le> 9" using ok by (auto simp: reader_ok_def)
  have all: "found' = N - 1 + min (17 - N) (length us) \<and>
          length cp' = 15 + N \<and>
          take (N - 1) cp' = take (N - 1) (drop (17 - N) cp) \<and>
          take (found' - (N - 1)) (drop (N - 1) cp') = take (17 - N) us \<and>
          (start' < e \<longleftrightarrow> 17 - N < length us) \<and>
          rest = drop (17 - N) us \<and>
          (start < e \<longrightarrow> start < start')"
    using ok se e lcp rd unfolding reader_ok_def us_def rest_def by blast
  then have f: "found' = N - 1 + min (17 - N) (length us)"
    and l: "length cp' = 15 + N"
    and c: "take (N - 1) cp' = take (N - 1) (drop (17 - N) cp)"
    and u: "take (found' - (N - 1)) (drop (N - 1) cp') = take (17 - N) us"
    and p: "start' < e \<longleftrightarrow> 17 - N < length us"
    and r: "rest = drop (17 - N) us"
    and g: "start < e \<longrightarrow> start < start'" by auto
  show "found' \<noteq> 0" using f N by simp
  show "found' \<le> 16" using f N by simp
  show "length cp' = 15 + N" by (rule l)
  show "start < e \<Longrightarrow> start < start'" using g by simp
  show "start' < e \<Longrightarrow> found' = 16" using p f N by simp
  show "found' = N - 1 + (found' - (N - 1))" using f by simp
  show "found' - (N - 1) + length rest = length us" using f r by simp
  have "take found' cp' = take (N - 1) cp' @ take (found' - (N - 1)) (drop (N - 1) cp')"
    using f by (metis take_add \<open>found' = N - 1 + (found' - (N - 1))\<close>)
  also have "\<dots> = take (N - 1) (drop (17 - N) cp) @ take (17 - N) us" by (simp only: c u)
  also have "take (N - 1) (drop (17 - N) cp) = drop (17 - N) (take 16 cp)"
    using N lcp by (simp add: drop_take)
  finally show "take found' cp' @ rest = drop (17 - N) (take 16 cp) @ us"
    by (simp add: r)
qed

lemma needle_loop_char:
  assumes ok: "reader_ok N rd dec" and loc: "\<And>w. hf w = hf (take N w)" and e: "e \<le> length buf"
  shows "length cp = 15 + N \<Longrightarrow> found \<le> 16 \<Longrightarrow> (start < e \<Longrightarrow> found = 16 \<and> i \<le> 17 - N) \<Longrightarrow>
     needle_loop N rd hf buf e cp start found i len st =
       Some (len + (of_nat found - of_nat N + 1)
               + of_nat (length (dec (take (e - start) (drop start buf)))),
             restore (map hf (ngrams N (drop i (take found cp)
                                        @ dec (take (e - start) (drop start buf))))) st)"
proof (induction "e - start" arbitrary: cp start found i len st rule: less_induct)
  case less
  have N: "2 \<le> N" "N \<le> 9" and d0: "dec [] = []" using ok by (auto simp: reader_ok_def)
  have fl: "found \<le> length cp" using less.prems(1,2) N by simp
  have N1: "1 \<le> N" using N by simp
  have nf: "needle_for N hf cp i found st = restore (map hf (ngrams N (drop i (take found cp)))) st"
    by (simp only: needle_for_eq window_hashes [of hf N, OF loc fl N1])
  show ?case
  proof (cases "start < e")
    case False
    then have "dec (take (e - start) (drop start buf)) = []" using d0 by simp
    then show ?thesis using False nf by (subst needle_loop.simps) (simp add: Let_def)
  next
    case True
    obtain found' cp' start' where rd: "rd cp buf start e = (found', cp', start')"
      by (cases "rd cp buf start e") auto
    define us where "us = dec (take (e - start) (drop start buf))"
    define rest where "rest = dec (take (e - start') (drop start' buf))"
    note rs = reader_step [OF ok e less.prems(1) less_imp_le [OF True] rd, folded us_def rest_def]
    have full: "found = 16" "i \<le> 17 - N" using less.prems(3) True by auto
    have m: "e - start' < e - start" using rs(4) [OF True] True by arith
    have IH: "needle_loop N rd hf buf e cp' start' found' 0 (len + (of_nat found - of_nat N + 1))
        (needle_for N hf cp i found st) =
       Some ((len + (of_nat found - of_nat N + 1)) + (of_nat found' - of_nat N + 1) + of_nat (length rest),
             restore (map hf (ngrams N (drop 0 (take found' cp') @ rest))) (needle_for N hf cp i found st))"
      unfolding rest_def
      by (rule less.hyps [OF m rs(3) rs(2)]) (use rs(5) in simp)
    have w: "(of_nat found' :: UInt64) - of_nat N + 1 = of_nat (found' - (N - 1))"
      using word_count_step [OF N(1), of "found' - (N - 1)"] rs(8) by simp
    have len_eq: "(len + (of_nat found - of_nat N + 1)) + (of_nat found' - of_nat N + 1) + of_nat (length rest)
        = len + (of_nat found - of_nat N + 1) + of_nat (length us)"
      by (simp only: w add.assoc of_nat_add [symmetric] rs(7))
    have xs: "N - 1 \<le> length (drop i (take 16 cp))" using full less.prems(1) N by simp
    have dd: "drop (length (drop i (take 16 cp)) - (N - 1)) (drop i (take 16 cp)) = drop (17 - N) (take 16 cp)"
      using full less.prems(1) N by simp
    have "ngrams N (drop i (take 16 cp) @ us) =
        ngrams N (drop i (take 16 cp)) @ ngrams N (drop (17 - N) (take 16 cp) @ us)"
      using ngrams_append [OF N1 xs, of us] by (simp only: dd)
    then have tab: "restore (map hf (ngrams N (drop 0 (take found' cp') @ rest))) (needle_for N hf cp i found st)
       = restore (map hf (ngrams N (drop i (take found cp) @ us))) st"
      using nf by (simp add: rs(6) full restore_append)
    have "needle_loop N rd hf buf e cp start found i len st =
       needle_loop N rd hf buf e cp' start' found' 0 (len + (of_nat found - of_nat N + 1))
        (needle_for N hf cp i found st)"
      using True rd rs(1) by (subst needle_loop.simps) (simp add: Let_def)
    then show ?thesis by (simp only: IH len_eq tab us_def)
  qed
qed


lemma haystack_loop_char:
  assumes ok: "reader_ok N rd dec" and loc: "\<And>w. hf w = hf (take N w)" and e: "e \<le> length buf"
  shows "length cp = 15 + N \<Longrightarrow> found \<le> 16 \<Longrightarrow> (start < e \<Longrightarrow> found = 16 \<and> i \<le> 17 - N) \<Longrightarrow>
     haystack_loop N rd hf buf e cp start found i (st, d, tr) =
       Some (fst (score (map hf (ngrams N (drop i (take found cp)
                    @ dec (take (e - start) (drop start buf))))) (st, d)),
             snd (score (map hf (ngrams N (drop i (take found cp)
                    @ dec (take (e - start) (drop start buf))))) (st, d)),
             tr @ map hf (ngrams N (drop i (take found cp)
                    @ dec (take (e - start) (drop start buf)))))"
proof (induction "e - start" arbitrary: cp start found i st d tr rule: less_induct)
  case less
  have N: "2 \<le> N" "N \<le> 9" and d0: "dec [] = []" using ok by (auto simp: reader_ok_def)
  have fl: "found \<le> length cp" using less.prems(1,2) N by simp
  have N1: "1 \<le> N" using N by simp
  define h1 where "h1 = map hf (ngrams N (drop i (take found cp)))"
  have hf: "haystack_for N hf cp i found (st, d, tr) =
      (fst (score h1 (st, d)), snd (score h1 (st, d)), tr @ h1)"
    by (simp only: h1_def haystack_for_eq window_hashes [of hf N, OF loc fl N1])
  show ?case
  proof (cases "start < e")
    case False
    then have "dec (take (e - start) (drop start buf)) = []" using d0 by simp
    then show ?thesis using False hf by (subst haystack_loop.simps) (simp add: Let_def h1_def)
  next
    case True
    obtain found' cp' start' where rd: "rd cp buf start e = (found', cp', start')"
      by (cases "rd cp buf start e") auto
    define us where "us = dec (take (e - start) (drop start buf))"
    define rest where "rest = dec (take (e - start') (drop start' buf))"
    note rs = reader_step [OF ok e less.prems(1) less_imp_le [OF True] rd, folded us_def rest_def]
    have full: "found = 16" "i \<le> 17 - N" using less.prems(3) True by auto
    have m: "e - start' < e - start" using rs(4) [OF True] True by arith
    define h2 where "h2 = map hf (ngrams N (drop 0 (take found' cp') @ rest))"
    have IH: "haystack_loop N rd hf buf e cp' start' found' 0
         (fst (score h1 (st, d)), snd (score h1 (st, d)), tr @ h1) =
       Some (fst (score h2 (fst (score h1 (st, d)), snd (score h1 (st, d)))),
             snd (score h2 (fst (score h1 (st, d)), snd (score h1 (st, d)))),
             (tr @ h1) @ h2)"
      unfolding rest_def h2_def
      by (rule less.hyps [OF m rs(3) rs(2)]) (use rs(5) in simp)
    have xs: "N - 1 \<le> length (drop i (take 16 cp))" using full less.prems(1) N by simp
    have dd: "drop (length (drop i (take 16 cp)) - (N - 1)) (drop i (take 16 cp)) = drop (17 - N) (take 16 cp)"
      using full less.prems(1) N by simp
    have "ngrams N (drop i (take 16 cp) @ us) =
        ngrams N (drop i (take 16 cp)) @ ngrams N (drop (17 - N) (take 16 cp) @ us)"
      using ngrams_append [OF N1 xs, of us] by (simp only: dd)
    then have hh: "map hf (ngrams N (drop i (take found cp) @ us)) = h1 @ h2"
      by (simp add: h1_def h2_def rs(6) full)
    have "haystack_loop N rd hf buf e cp start found i (st, d, tr) =
       haystack_loop N rd hf buf e cp' start' found' 0
         (fst (score h1 (st, d)), snd (score h1 (st, d)), tr @ h1)"
      using True rd rs(1) by (subst haystack_loop.simps) (simp add: Let_def hf)
    then show ?thesis
      unfolding us_def [symmetric] hh by (simp add: IH score_append)
  qed
qed

lemma first_read:
  assumes ok: "reader_ok N rd dec" and e: "data + sz \<le> length buf"
    and rd: "rd (replicate (simultaneously_codepoints_num N) 0) buf data (data + sz) = (found', cp', start')"
  defines "us \<equiv> dec (take sz (drop data buf))"
    and "rest \<equiv> dec (take (data + sz - start') (drop start' buf))"
  shows "length cp' = 15 + N" "found' \<le> 16" "start' < data + sz \<Longrightarrow> found' = 16 \<and> N - 1 \<le> 17 - N"
    "drop (N - 1) (take found' cp') @ rest = us"
    "(of_nat found' :: UInt64) - of_nat N + 1 + of_nat (length rest) = of_nat (length us)"
proof -
  have N: "2 \<le> N" "N \<le> 9" using ok by (auto simp: reader_ok_def)
  let ?cp = "replicate (simultaneously_codepoints_num N) (0::'a)"
  have lcp: "length ?cp = 15 + N" using N by (simp add: simultaneously_codepoints_num_def default_padding_def)
  have t: "take (data + sz - data) (drop data buf) = take sz (drop data buf)" by simp
  note rs = reader_step [OF ok e lcp le_add1 rd, unfolded t, folded us_def rest_def]
  show "length cp' = 15 + N" by (rule rs(3))
  show "found' \<le> 16" by (rule rs(2))
  show "start' < data + sz \<Longrightarrow> found' = 16 \<and> N - 1 \<le> 17 - N" using rs(5) N by simp
  have a: "length (take found' cp') = found'" using rs(3) rs(2) N by simp
  have b: "N - 1 \<le> found'" using rs(8) by arith
  have c: "length (drop (17 - N) (take 16 ?cp)) = N - 1" using N lcp by simp
  have "drop (N - 1) (take found' cp') @ rest = drop (N - 1) (take found' cp' @ rest)"
    using a b by (simp del: drop_take take_replicate)
  also have "\<dots> = drop (N - 1) (drop (17 - N) (take 16 ?cp) @ us)"
    by (simp only: rs(6))
  also have "\<dots> = us"
    using c by (simp del: drop_take take_replicate drop_replicate)
  finally show "drop (N - 1) (take found' cp') @ rest = us" .
  have "(of_nat found' :: UInt64) - of_nat N + 1 = of_nat (found' - (N - 1))"
    using word_count_step [OF N(1), of "found' - (N - 1)"] rs(8) by simp
  then show "(of_nat found' :: UInt64) - of_nat N + 1 + of_nat (length rest) = of_nat (length us)"
    by (simp only: of_nat_add [symmetric] rs(7))
qed

lemma calculateNeedleStats_char:
  assumes ok: "reader_ok N rd dec" and loc: "\<And>w. hf w = hf (take N w)"
    and e: "data + sz \<le> length buf" and sz: "N \<le> sz"
  shows "calculateNeedleStats N rd hf buf data sz st =
     Some (of_nat (length (dec (take sz (drop data buf)))) - of_nat N + 1,
           restore (map hf (ngrams N (dec (take sz (drop data buf))))) st)"
proof -
  obtain found' cp' start' where
    rd: "rd (replicate (simultaneously_codepoints_num N) 0) buf data (data + sz) = (found', cp', start')"
    by (cases "rd (replicate (simultaneously_codepoints_num N) 0) buf data (data + sz)") auto
  note fr = first_read [OF ok e rd]
  have "calculateNeedleStats N rd hf buf data sz st =
      needle_loop N rd hf buf (data + sz) cp' start' found' (N - 1) (- of_nat N + 1) st"
    using sz rd by (simp add: calculateNeedleStats_def Let_def)
  also have "\<dots> = Some (- of_nat N + 1 + (of_nat found' - of_nat N + 1)
               + of_nat (length (dec (take (data + sz - start') (drop start' buf)))),
             restore (map hf (ngrams N (drop (N - 1) (take found' cp')
                      @ dec (take (data + sz - start') (drop start' buf))))) st)"
    by (rule needle_loop_char [where hf = hf and N = N, OF ok loc e fr(1) fr(2)]) (rule fr(3))
  also have "- of_nat N + 1 + (of_nat found' - of_nat N + 1)
               + of_nat (length (dec (take (data + sz - start') (drop start' buf))))
      = (of_nat (length (dec (take sz (drop data buf)))) :: UInt64) - of_nat N + 1"
    using fr(5) by (simp add: algebra_simps)
  finally show ?thesis by (simp only: fr(4))
qed

lemma calculateHaystackStatsAndMetric_char:
  assumes ok: "reader_ok N rd dec" and loc: "\<And>w. hf w = hf (take N w)"
    and e: "data + sz \<le> length buf"
  shows "calculateHaystackStatsAndMetric N rd hf buf data sz st d =
     Some (of_nat (length (ngrams N (dec (take sz (drop data buf))))), st,
           snd (score (map hf (ngrams N (dec (take sz (drop data buf))))) (st, d)))"
proof -
  obtain found' cp' start' where
    rd: "rd (replicate (simultaneously_codepoints_num N) 0) buf data (data + sz) = (found', cp', start')"
    by (cases "rd (replicate (simultaneously_codepoints_num N) 0) buf data (data + sz)") auto
  note fr = first_read [OF ok e rd]
  define hs where "hs = map hf (ngrams N (dec (take sz (drop data buf))))"
  have "haystack_loop N rd hf buf (data + sz) cp' start' found' (N - 1) (st, d, []) =
      Some (fst (score hs (st, d)), snd (score hs (st, d)), [] @ hs)"
    unfolding hs_def fr(4) [symmetric]
    by (rule haystack_loop_char [where hf = hf and N = N, OF ok loc e fr(1) fr(2)]) (rule fr(3))
  then show ?thesis
    using rd by (simp add: calculateHaystackStatsAndMetric_def Let_def restore_score hs_def [symmetric])
      (simp add: hs_def)
qed

section \<open>The two readers\<close>

lemma length_load_bytes [simp]: "length (load_bytes buf pos n) = n"
  by (simp add: load_bytes_def)

lemma take_load_bytes:
  assumes "pos + n \<le> length buf" "n \<le> m"
  shows "take n (load_bytes buf pos m) = take n (drop pos buf)"
proof (rule nth_equalityI)
  show "length (take n (load_bytes buf pos m)) = length (take n (drop pos buf))"
    using assms by simp
next
  fix k assume "k < length (take n (load_bytes buf pos m))"
  then have "k < n" "k < m" using assms by simp_all
  then show "take n (load_bytes buf pos m) ! k = take n (drop pos buf) ! k"
    using assms by (simp add: load_bytes_def)
qed

lemma ascii_read_facts:
  assumes pe: "pos \<le> e" and eb: "e \<le> length buf" and lcp: "length cp = 19"
    and rd: "readASCIICodePoints ci cp buf pos e = (found, cp', pos')"
  shows "found = 3 + min 13 (e - pos)" "length cp' = 19" "pos' = pos + 13"
    "take 3 cp' = take 3 (drop 13 cp)"
    "take (min 13 (e - pos)) (drop 3 cp') = ascii_units ci (take (min 13 (e - pos)) (drop pos buf))"
proof -
  define c2 where "c2 = take 3 (take 4 (drop 13 cp) @ drop 4 cp) @ load_bytes buf pos 16"
  have l2: "length c2 = 19" using lcp by (simp add: c2_def)
  have t2: "take 3 c2 = take 3 (drop 13 cp)" using lcp by (simp add: c2_def)
  have d2: "drop 3 c2 = load_bytes buf pos 16" using lcp by (simp add: c2_def)
  have cp': "cp' = (if ci then unrollLowering 3 13 c2 else c2)"
    and f: "found = (if pos + 13 > e then 16 - (pos + 13 - e) else 16)"
    and p: "pos' = pos + 13"
    using rd by (auto simp: readASCIICodePoints_def Let_def c2_def split: if_splits)
  show "pos' = pos + 13" by (rule p)
  show "found = 3 + min 13 (e - pos)" using f pe by (auto simp: min_def)
  show "length cp' = 19" using l2 by (simp add: cp' unrollLowering_def)
  show "take 3 cp' = take 3 (drop 13 cp)" using l2 t2 lcp by (simp add: cp' unrollLowering_def)
  let ?n = "min 13 (e - pos)"
  have n: "pos + ?n \<le> length buf" "?n \<le> 16" "?n \<le> 13" using pe eb by auto
  have tl: "take ?n (load_bytes buf pos 16) = take ?n (drop pos buf)"
    by (rule take_load_bytes [OF n(1) n(2)])
  show "take ?n (drop 3 cp') = ascii_units ci (take ?n (drop pos buf))"
  proof (cases ci)
    case False
    then show ?thesis using tl by (simp add: cp' d2 ascii_units_def)
  next
    case True
    have "drop 3 (unrollLowering 3 13 c2) = map tolower (take 13 (drop 3 c2)) @ drop 16 c2"
      using l2 by (simp add: unrollLowering_def)
    then have "take ?n (drop 3 cp') = take ?n (map tolower (take 13 (load_bytes buf pos 16)))"
      using True n(3) by (simp add: cp' d2)
    also have "\<dots> = map tolower (take ?n (load_bytes buf pos 16))"
      using n(3) by (simp add: take_map min_def)
    finally show ?thesis using True tl by (simp add: ascii_units_def)
  qed
qed

lemma ascii_units_simps [simp]:
  "length (ascii_units ci bs) = length bs"
  "take n (ascii_units ci bs) = ascii_units ci (take n bs)"
  "drop n (ascii_units ci bs) = ascii_units ci (drop n bs)"
  "ascii_units ci [] = []"
  by (simp_all add: ascii_units_def take_map drop_map)

lemma reader_ok_ascii: "reader_ok 4 (readASCIICodePoints ci) (ascii_units ci)"
  unfolding reader_ok_def
proof (intro conjI allI impI)
  fix cp buf pos e found cp' pos'
  assume pe: "pos \<le> e" and eb: "e \<le> length buf" and lcp: "length cp = 15 + 4"
    and rd: "readASCIICodePoints ci cp buf pos e = (found, cp', pos')"
  have lcp': "length cp = 19" using lcp by simp
  note f = ascii_read_facts [OF pe eb lcp' rd]
  have lu: "length (ascii_units ci (take (e - pos) (drop pos buf))) = e - pos"
    using eb pe by simp
  show "found = 4 - 1 + min (17 - 4) (length (ascii_units ci (take (e - pos) (drop pos buf))))"
    using f(1) lu by simp
  show "length cp' = 15 + 4" using f(2) by simp
  show "take (4 - 1) cp' = take (4 - 1) (drop (17 - 4) cp)" using f(4) by simp
  show "take (found - (4 - 1)) (drop (4 - 1) cp') =
      take (17 - 4) (ascii_units ci (take (e - pos) (drop pos buf)))"
    using f(5) f(1) by (simp add: min.commute)
  show "(pos' < e) = (17 - 4 < length (ascii_units ci (take (e - pos) (drop pos buf))))"
    using f(3) lu by auto
  show "ascii_units ci (take (e - pos') (drop pos' buf)) =
      drop (17 - 4) (ascii_units ci (take (e - pos) (drop pos buf)))"
    using f(3) by (simp add: drop_take add.commute)
  show "pos < pos'" using f(3) by simp
qed simp_all

lemma utf8_units_Nil [simp]: "utf8_units sl ci [] = []"
  by (subst utf8_units.simps) simp

lemma utf8_units_Nil_iff [simp]: "utf8_units sl ci bs = [] \<longleftrightarrow> bs = []"
  by (subst utf8_units.simps) (simp add: Let_def)

lemma utf8_res_cong:
  assumes "take (min len 4) xs = take (min len 4) ys" "1 \<le> len"
  shows "utf8_res ci len xs = utf8_res ci len ys"
proof -
  consider "len = 1" | "len = 2" | "len = 3" | "4 \<le> len" using assms(2) by arith
  then have "(if len = 1 then le_UInt32 (take 1 xs)
                 else if len = 2 then le_UInt32 (take 2 xs)
                 else if len = 3 then le_UInt32 (take 3 xs)
                 else le_UInt32 (take 4 xs)) =
     (if len = 1 then le_UInt32 (take 1 ys)
                 else if len = 2 then le_UInt32 (take 2 ys)
                 else if len = 3 then le_UInt32 (take 3 ys)
                 else le_UInt32 (take 4 ys))"
  proof cases
    case 1 then show ?thesis using assms(1) by simp
  next
    case 2 then show ?thesis using assms(1) by simp
  next
    case 3 then show ?thesis using assms(1) by simp
  next
    case 4
    then have "min len 4 = 4" by simp
    then show ?thesis using assms(1) 4 by simp
  qed
  then show ?thesis by (simp only: utf8_res_def)
qed

lemma utf8_while_step:
  assumes sl: "\<forall>b. 1 \<le> sl b" and eb: "e \<le> length buf" and pe: "pos < e"
  defines "len \<equiv> (if pos + sl (buf ! pos) > e then e - pos else sl (buf ! pos))"
  shows "1 \<le> len" "pos + len \<le> e"
    "utf8_units sl ci (take (e - pos) (drop pos buf)) =
       utf8_res ci len (load_bytes buf pos 4)
         # utf8_units sl ci (take (e - (pos + len)) (drop (pos + len) buf))"
proof -
  let ?bs = "take (e - pos) (drop pos buf)"
  have ne: "?bs \<noteq> []" using pe eb by simp
  have hd: "hd ?bs = buf ! pos" using pe eb by (simp add: hd_drop_conv_nth)
  have lb: "length ?bs = e - pos" using pe eb by simp
  have len: "len = min (sl (buf ! pos)) (length ?bs)" unfolding lb using pe by (auto simp: len_def min_def)
  show l1: "1 \<le> len" using sl [rule_format, of "buf ! pos"] pe by (auto simp: len_def)
  show l2: "pos + len \<le> e" using pe by (auto simp: len_def)
  have m: "max len 1 = len" using l1 by simp
  have a: "take (min len 4) (load_bytes buf pos 4) = take (min len 4) (drop pos buf)"
    using l2 eb by (intro take_load_bytes) auto
  have b: "take (min len 4) (take 4 ?bs) = take (min len 4) (drop pos buf)"
    using l2 by (simp add: min_def)
  have r: "utf8_res ci len (take 4 ?bs) = utf8_res ci len (load_bytes buf pos 4)"
    by (rule utf8_res_cong) (simp_all only: a b l1)
  have d: "drop len ?bs = take (e - (pos + len)) (drop (pos + len) buf)"
    by (simp add: drop_take add.commute)
  have "utf8_units sl ci ?bs =
      utf8_res ci len (take 4 ?bs) # utf8_units sl ci (drop (max len 1) ?bs)"
    using ne by (subst utf8_units.simps) (simp only: if_False Let_def hd len [symmetric])
  then show "utf8_units sl ci ?bs =
       utf8_res ci len (load_bytes buf pos 4)
         # utf8_units sl ci (take (e - (pos + len)) (drop (pos + len) buf))"
    by (simp only: m r d)
qed

lemma utf8_while_facts:
  "\<forall>b. 1 \<le> sl b \<Longrightarrow> e \<le> length buf \<Longrightarrow> pos \<le> e \<Longrightarrow> num \<le> 16 \<Longrightarrow> length cp = 18 \<Longrightarrow>
    readUTF8_while sl ci buf e cp pos num = (found, cp', pos') \<Longrightarrow>
      found = num + min (16 - num) (length (utf8_units sl ci (take (e - pos) (drop pos buf)))) \<and>
      length cp' = 18 \<and> take num cp' = take num cp \<and>
      take (found - num) (drop num cp') =
        take (16 - num) (utf8_units sl ci (take (e - pos) (drop pos buf))) \<and>
      pos' \<le> e \<and>
      utf8_units sl ci (take (e - pos') (drop pos' buf)) =
        drop (16 - num) (utf8_units sl ci (take (e - pos) (drop pos buf))) \<and>
      (pos < e \<and> num < 16 \<longrightarrow> pos < pos')"
proof (induction sl ci buf e cp pos num rule: readUTF8_while.induct)
  case (1 sl ci buf e cp pos num)
  note sl = "1.prems"(1) and eb = "1.prems"(2) and pe0 = "1.prems"(3) and n16 = "1.prems"(4)
    and lcp = "1.prems"(5) and rd = "1.prems"(6)
  show ?case
  proof (cases "num < 16 \<and> pos < e")
    case False
    have "readUTF8_while sl ci buf e cp pos num = (num, cp, pos)"
      by (subst readUTF8_while.simps) (simp only: False if_False)
    then have r: "found = num" "cp' = cp" "pos' = pos" using rd by simp_all
    show ?thesis
    proof (cases "num < 16")
      case True
      then have "pos = e" using False pe0 by simp
      then show ?thesis using r lcp by simp
    next
      case False
      then have "num = 16" using n16 by simp
      then show ?thesis using r lcp pe0 by simp
    qed
  next
    case True
    define len where "len = (if pos + sl (buf ! pos) > e then e - pos else sl (buf ! pos))"
    define res where "res = utf8_res ci len (load_bytes buf pos 4)"
    define us' where "us' = utf8_units sl ci (take (e - (pos + len)) (drop (pos + len) buf))"
    define us where "us = utf8_units sl ci (take (e - pos) (drop pos buf))"
    have pe: "pos < e" and nl: "num < 16" using True by auto
    note st = utf8_while_step(1,2) [OF sl eb pe, folded len_def]
      utf8_while_step(3) [where ci = ci, OF sl eb pe, folded len_def, folded res_def us'_def us_def]
    have "readUTF8_while sl ci buf e cp pos num =
        readUTF8_while sl ci buf e (cp[num := res]) (pos + len) (num + 1)"
      using True by (subst readUTF8_while.simps) (simp add: Let_def len_def res_def)
    then have rec: "readUTF8_while sl ci buf e (cp[num := res]) (pos + len) (num + 1) = (found, cp', pos')"
      using rd by simp
    have IH: "found = (num + 1) + min (16 - (num + 1)) (length us') \<and>
      length cp' = 18 \<and> take (num + 1) cp' = take (num + 1) (cp[num := res]) \<and>
      take (found - (num + 1)) (drop (num + 1) cp') = take (16 - (num + 1)) us' \<and>
      pos' \<le> e \<and>
      utf8_units sl ci (take (e - pos') (drop pos' buf)) = drop (16 - (num + 1)) us' \<and>
      (pos + len < e \<and> num + 1 < 16 \<longrightarrow> pos + len < pos')"
      unfolding us'_def res_def len_def
      by (rule "1.IH" [OF True refl refl refl sl eb])
         (use st(2) nl lcp rec in \<open>simp_all add: res_def len_def\<close>)
    then have f: "found = (num + 1) + min (16 - (num + 1)) (length us')"
      and l: "length cp' = 18"
      and t: "take (num + 1) cp' = take (num + 1) (cp[num := res])"
      and u: "take (found - (num + 1)) (drop (num + 1) cp') = take (16 - (num + 1)) us'"
      and p: "pos' \<le> e"
      and r: "utf8_units sl ci (take (e - pos') (drop pos' buf)) = drop (16 - (num + 1)) us'"
      by blast+
    have g: "pos + len \<le> pos'"
    proof (cases "pos + len < e \<and> num + 1 < 16")
      case True then show ?thesis using IH by simp
    next
      case False
      have "readUTF8_while sl ci buf e (cp[num := res]) (pos + len) (num + 1) =
          (num + 1, cp[num := res], pos + len)"
        using False by (subst readUTF8_while.simps) auto
      then show ?thesis using rec by simp
    qed
    have us: "us = res # us'" by (rule st(3))
    have nth: "cp' ! num = res"
    proof -
      have "cp' ! num = take (num + 1) cp' ! num" by simp
      also have "\<dots> = res" unfolding t using nl lcp by simp
      finally show ?thesis .
    qed
    have tn: "take num cp' = take num cp"
    proof -
      have "take num cp' = take num (take (num + 1) cp')" by (simp add: min_def)
      also have "\<dots> = take num cp" unfolding t by (simp add: min_def)
      finally show ?thesis .
    qed
    have fn: "found - num = Suc (found - (num + 1))" using f by simp
    have dn: "drop num cp' = cp' ! num # drop (num + 1) cp'"
      using l nl by (simp add: Cons_nth_drop_Suc)
    have sn: "16 - num = Suc (16 - (num + 1))" using nl by simp
    have tk: "take (found - num) (drop num cp') = take (16 - num) us"
      unfolding fn dn sn us using u by (simp add: nth)
    have dr: "drop (16 - num) us = drop (16 - (num + 1)) us'"
      unfolding sn us by simp
    have fo: "found = num + min (16 - num) (length us)"
      using f nl by (simp add: us)
    show ?thesis
      unfolding us_def [symmetric]
      using fo l tn tk p r dr g st(1) by simp
  qed
qed

lemma reader_ok_utf8:
  assumes sl: "\<forall>b. 1 \<le> sl b"
  shows "reader_ok 3 (readUTF8CodePoints sl ci) (utf8_units sl ci)"
  unfolding reader_ok_def
proof (intro conjI allI impI)
  fix cp buf pos e found cp' pos'
  assume pe: "pos \<le> e" and eb: "e \<le> length buf" and lcp: "length cp = 15 + 3"
    and rd: "readUTF8CodePoints sl ci cp buf pos e = (found, cp', pos')"
  define c1 where "c1 = take 2 (drop 14 cp) @ drop 2 cp"
  define us where "us = utf8_units sl ci (take (e - pos) (drop pos buf))"
  have l1: "length c1 = 18" using lcp by (simp add: c1_def)
  have rd': "readUTF8_while sl ci buf e c1 pos 2 = (found, cp', pos')"
    using rd by (simp add: readUTF8CodePoints_def c1_def)
  have n2: "(2::nat) \<le> 16" by simp
  note f = utf8_while_facts [OF sl eb pe n2 l1 rd', folded us_def]
  have rest: "utf8_units sl ci (take (e - pos') (drop pos' buf)) = drop 14 us" using f by simp
  have p': "pos' \<le> e" using f by simp
  show "found = 3 - 1 + min (17 - 3) (length us)" using f by simp
  show "length cp' = 15 + 3" using f by simp
  show "take (3 - 1) cp' = take (3 - 1) (drop (17 - 3) cp)" using f lcp by (simp add: c1_def)
  have "take (found - 2) (drop 2 cp') = take (16 - 2) us" using f by blast
  then show "take (found - (3 - 1)) (drop (3 - 1) cp') = take (17 - 3) us" by simp
  have "pos' < e \<longleftrightarrow> take (e - pos') (drop pos' buf) \<noteq> []" using eb p' by auto
  also have "\<dots> \<longleftrightarrow> drop 14 us \<noteq> []" using rest utf8_units_Nil_iff by metis
  finally show "(pos' < e) = (17 - 3 < length us)" by (simp add: not_le)
  show "utf8_units sl ci (take (e - pos') (drop pos' buf)) = drop (17 - 3) us" using rest by simp
  show "pos < pos'" if "pos < e" using f that by simp
qed simp_all

section \<open>Closed forms of the drivers\<close>

lemma hash_local_ASCIIHash: "hash_local 4 (ASCIIHash crc)"
  by (simp add: hash_local_def ASCIIHash_def)

lemma hash_local_UTF8Hash: "hash_local 3 (UTF8Hash crc)"
  by (simp add: hash_local_def UTF8Hash_def)

lemma needle_pass:
  assumes ok: "reader_ok N rd dec" and loc: "hash_local N hf"
  shows "calculateNeedleStats N rd hf (needle @ replicate default_padding 0) 0 (length needle) (\<lambda>_. 0)
     = Some (needle_stats N dec hf needle)"
proof (cases "length needle < N")
  case True
  then show ?thesis by (simp add: calculateNeedleStats_def needle_stats_def)
next
  case False
  have l: "\<And>w. hf w = hf (take N w)" using loc by (simp add: hash_local_def)
  have e: "0 + length needle \<le> length (needle @ replicate default_padding 0)" by simp
  have n: "N \<le> length needle" using False by simp
  show ?thesis
    using calculateNeedleStats_char [where hf = hf and N = N, OF ok l e n, of "\<lambda>_. 0"] False
    by (simp add: needle_stats_def)
qed

lemma haystack_pass:
  assumes ok: "reader_ok N rd dec" and loc: "hash_local N hf"
    and e: "data + sz \<le> length buf"
  shows "calculateHaystackStatsAndMetric N rd hf buf data sz st d =
     Some (of_nat (length (ngrams N (dec (take sz (drop data buf))))), st,
           snd (score (map hf (ngrams N (dec (take sz (drop data buf))))) (st, d)))"
proof -
  have l: "\<And>w. hf w = hf (take N w)" using loc by (simp add: hash_local_def)
  show ?thesis by (rule calculateHaystackStatsAndMetric_char [where hf = hf and N = N, OF ok l e])
qed

lemma constant_constant_char:
  assumes ok: "reader_ok N rd dec" and loc: "hash_local N hf"
  shows "constant_constant N rd hf data needle =
     Some (row_result N dec hf (needle_stats N dec hf needle) data)"
proof -
  have e: "0 + length data \<le> length (data @ replicate default_padding 0)" by simp
  obtain c T where ns: "needle_stats N dec hf needle = (c, T)" by (cases "needle_stats N dec hf needle") auto
  show ?thesis
    unfolding constant_constant_def Let_def needle_pass [OF ok loc] ns
    by (simp add: haystack_pass [OF ok loc e] row_result_def)
qed

lemma unat_row_size:
  assumes "prev < (off :: UInt64)"
  shows "unat (off - prev - 1) = unat off - unat prev - 1" "unat prev + unat (off - prev - 1) < unat off"
proof -
  have p: "unat prev < unat off" using assms by (simp add: word_less_nat_alt)
  have "unat (off - prev) = unat off - unat prev" using assms by (simp add: unat_sub word_le_nat_alt p less_imp_le)
  moreover have "1 \<le> off - prev" using assms by (simp add: word_le_nat_alt unat_sub p less_imp_le) (use p in arith)
  ultimately show "unat (off - prev - 1) = unat off - unat prev - 1" by (simp add: unat_sub)
  then show "unat prev + unat (off - prev - 1) < unat off" using p by simp
qed

lemma vector_constant_rows_char:
  assumes ok: "reader_ok N rd dec" and loc: "hash_local N hf"
  shows "offsets_ok data prev offs \<Longrightarrow>
     vector_constant_rows N rd hf data c offs (T, c, prev, res) =
       Some (T, c, last (prev # offs), res @ map (row_result N dec hf (c, T)) (column_rows data prev offs))"
proof (induction offs arbitrary: prev res)
  case Nil
  show ?case by simp
next
  case (Cons off offs)
  have lt: "prev < off" and ub: "unat off \<le> length data" and rest: "offsets_ok data off offs"
    using Cons.prems by simp_all
  define sz where "sz = off - prev - 1"
  define row where "row = take (unat sz) (drop (unat prev) data)"
  have e: "unat prev + unat sz \<le> length data"
    using unat_row_size(2) [OF lt] ub by (simp add: sz_def)
  have lr: "length row = unat sz" using e by (simp add: row_def)
  have cmp: "sz \<le> of_nat max_string_size \<longleftrightarrow> length row \<le> max_string_size"
    by (simp add: lr word_le_nat_alt max_string_size_def)
  note hp = haystack_pass [OF ok loc e, of T c, folded row_def]
  note IH = Cons.IH [OF rest]
  show ?case
  proof (cases "sz \<le> of_nat max_string_size")
    case True
    then have "row_result N dec hf (c, T) row =
        Float32_div (snd (score (map hf (ngrams N (dec row))) (T, c)))
          (max (of_nat (length (ngrams N (dec row))) + c) 1)"
      using cmp by (simp add: row_result_def)
    then show ?thesis
      using True by (simp add: Let_def sz_def [symmetric] hp IH row_def [symmetric])
  next
    case False
    then have "row_result N dec hf (c, T) row = Float32_one"
      using cmp by (simp add: row_result_def)
    then show ?thesis
      using False by (simp add: Let_def sz_def [symmetric] IH row_def [symmetric])
  qed
qed

lemma vector_constant_char:
  assumes ok: "reader_ok N rd dec" and loc: "hash_local N hf" and wf: "offsets_ok data 0 offsets"
  shows "vector_constant N rd hf data offsets needle =
     Some (map (row_result N dec hf (needle_stats N dec hf needle)) (column_rows data 0 offsets))"
proof -
  obtain c T where ns: "needle_stats N dec hf needle = (c, T)" by (cases "needle_stats N dec hf needle") auto
  show ?thesis
    unfolding vector_constant_def Let_def needle_pass [OF ok loc] ns
    by (simp add: vector_constant_rows_char [OF ok loc wf])
qed

lemma needle_stats_dispatch:
  "needle_stats 4 (ascii_units ci) (ASCIIHash crc) needle = dispatch_needle_stats crc sl False ci needle"
  "needle_stats 3 (utf8_units sl ci) (UTF8Hash crc) needle = dispatch_needle_stats crc sl True ci needle"
  by (simp_all add: needle_stats_def dispatch_needle_stats_def ngram_N_def unit_count_def
      ngram_hashes_def)

lemma row_result_dispatch:
  "row_result 4 (ascii_units ci) (ASCIIHash crc) ns row = dispatch_row_result crc sl False ci ns row"
  "row_result 3 (utf8_units sl ci) (UTF8Hash crc) ns row = dispatch_row_result crc sl True ci ns row"
  by (simp_all add: row_result_def dispatch_row_result_def ngram_hashes_def)

lemma dispatch_needle_pass:
  assumes "\<forall>b. 1 \<le> sl b"
  shows "dispatch_calculateNeedleStats crc sl u ci (needle @ replicate default_padding 0) 0
      (length needle) (\<lambda>_. 0) = Some (dispatch_needle_stats crc sl u ci needle)"
proof (cases u)
  case True
  then show ?thesis
    using needle_pass [OF reader_ok_utf8 [OF assms] hash_local_UTF8Hash]
    by (simp add: dispatch_calculateNeedleStats_def needle_stats_dispatch [where sl = sl])
next
  case False
  then show ?thesis
    using needle_pass [OF reader_ok_ascii hash_local_ASCIIHash]
    by (simp add: dispatch_calculateNeedleStats_def needle_stats_dispatch [where sl = sl])
qed

lemma dispatch_haystack_pass:
  assumes "\<forall>b. 1 \<le> sl b" "data + sz \<le> length buf"
  shows "dispatch_calculateHaystackStatsAndMetric crc sl u ci buf data sz st d =
     Some (of_nat (length (ngram_hashes crc sl u ci (take sz (drop data buf)))), st,
           snd (score (ngram_hashes crc sl u ci (take sz (drop data buf))) (st, d)))"
proof (cases u)
  case True
  then show ?thesis
    using haystack_pass [OF reader_ok_utf8 [OF assms(1)] hash_local_UTF8Hash assms(2)]
    by (simp add: dispatch_calculateHaystackStatsAndMetric_def ngram_hashes_def)
next
  case False
  then show ?thesis
    using haystack_pass [OF reader_ok_ascii hash_local_ASCIIHash assms(2)]
    by (simp add: dispatch_calculateHaystackStatsAndMetric_def ngram_hashes_def)
qed

lemma dispatch_constant_constant_char:
  assumes "\<forall>b. 1 \<le> sl b"
  shows "dispatch_constant_constant crc sl u ci data needle =
     Some (dispatch_row_result crc sl u ci (dispatch_needle_stats crc sl u ci needle) data)"
proof (cases u)
  case True
  then show ?thesis
    using constant_constant_char [OF reader_ok_utf8 [OF assms] hash_local_UTF8Hash]
    by (simp add: dispatch_constant_constant_def needle_stats_dispatch [where sl = sl] row_result_dispatch [where sl = sl])
next
  case False
  then show ?thesis
    using constant_constant_char [OF reader_ok_ascii hash_local_ASCIIHash]
    by (simp add: dispatch_constant_constant_def needle_stats_dispatch [where sl = sl] row_result_dispatch [where sl = sl])
qed


lemma dispatch_vector_constant_rows_char:
  assumes "\<forall>b. 1 \<le> sl b" "offsets_ok data prev offs"
  shows "dispatch_vector_constant_rows crc sl u ci data c offs (T, c, prev, res) =
       Some (T, c, last (prev # offs),
             res @ map (dispatch_row_result crc sl u ci (c, T)) (column_rows data prev offs))"
proof (cases u)
  case True
  then show ?thesis
    using vector_constant_rows_char [OF reader_ok_utf8 [OF assms(1)] hash_local_UTF8Hash assms(2)]
    by (simp add: dispatch_vector_constant_rows_def row_result_dispatch [where sl = sl])
next
  case False
  then show ?thesis
    using vector_constant_rows_char [OF reader_ok_ascii hash_local_ASCIIHash assms(2)]
    by (simp add: dispatch_vector_constant_rows_def row_result_dispatch [where sl = sl])
qed

lemma dispatch_vector_constant_char:
  assumes "\<forall>b. 1 \<le> sl b" "offsets_ok data 0 offsets"
  shows "dispatch_vector_constant crc sl u ci data offsets needle =
     Some (map (dispatch_row_result crc sl u ci (dispatch_needle_stats crc sl u ci needle))
             (column_rows data 0 offsets))"
proof (cases u)
  case True
  then show ?thesis
    using vector_constant_char [OF reader_ok_utf8 [OF assms(1)] hash_local_UTF8Hash assms(2)]
    by (simp add: dispatch_vector_constant_def needle_stats_dispatch [where sl = sl] row_result_dispatch [where sl = sl])
next
  case False
  then show ?thesis
    using vector_constant_char [OF reader_ok_ascii hash_local_ASCIIHash assms(2)]
    by (simp add: dispatch_vector_constant_def needle_stats_dispatch [where sl = sl] row_result_dispatch [where sl = sl])
qed

lemma length_column_rows [simp]: "length (column_rows data prev offs) = length offs"
  by (induction offs arbitrary: prev) auto

lemma offsets_ok_take: "offsets_ok data prev offs \<Longrightarrow> offsets_ok data prev (take k offs)"
proof (induction offs arbitrary: prev k)
  case Nil
  then show ?case by simp
next
  case (Cons a offs)
  then show ?case by (cases k) auto
qed

section \<open>Units, n-gram hashes and counters\<close>

lemma seqLength_table_pos: "\<forall>b. 1 \<le> seqLength_table b"
  by (simp add: seqLength_table_def)

lemma length_utf8_units: "length (utf8_units sl ci bs) \<le> length bs"
proof (induction sl ci bs rule: utf8_units.induct)
  case (1 sl ci bs)
  show ?case
  proof (cases "bs = []")
    case True
    then show ?thesis by simp
  next
    case False
    define len where "len = min (sl (hd bs)) (length bs)"
    have "length (utf8_units sl ci (drop (max len 1) bs)) \<le> length (drop (max len 1) bs)"
      by (rule "1.IH" [OF False len_def])
    moreover have "utf8_units sl ci bs =
        utf8_res ci len (take 4 bs) # utf8_units sl ci (drop (max len 1) bs)"
      using False by (subst utf8_units.simps) (simp add: Let_def len_def)
    ultimately show ?thesis using False by (cases bs) auto
  qed
qed

lemma unit_count_le: "unit_count sl u ci bs \<le> length bs"
  by (simp add: unit_count_def length_utf8_units)

lemma length_ngram_hashes:
  "length (ngram_hashes crc sl u ci bs) = unit_count sl u ci bs + 1 - ngram_N u"
  by (simp add: ngram_hashes_def unit_count_def ngram_N_def)

lemma ngram_hashes_short: "length bs < ngram_N u \<Longrightarrow> ngram_hashes crc sl u ci bs = []"
  using unit_count_le [of sl u ci bs] length_ngram_hashes [of crc sl u ci bs] by simp

lemma dispatch_needle_table:
  "snd (dispatch_needle_stats crc sl u ci needle) = restore (ngram_hashes crc sl u ci needle) (\<lambda>_. 0)"
  by (simp add: dispatch_needle_stats_def ngram_hashes_short)

subsection \<open>The running distance\<close>

lemma sint_counter:
  assumes "n < 32768" "c \<le> 32768"
  shows "sint ((of_nat n :: UInt16) - of_nat c) = int n - int c"
proof -
  have "(of_nat n :: UInt16) - of_nat c = word_of_int (int n - int c)" by simp
  moreover have "signed_take_bit (LENGTH(16) - 1) (int n - int c) = int n - int c"
    using assms by (intro signed_take_bit_int_eq_self) simp_all
  ultimately show ?thesis by (simp only: sint_sbintrunc')
qed

lemma unat_of_nat64: "n < 2 ^ 64 \<Longrightarrow> unat (of_nat n :: UInt64) = n"
  by (simp add: unat_of_nat)

lemma size_le_of_count:
  fixes M :: "UInt16 multiset"
  assumes "\<forall>h. count M h < B"
  shows "size M \<le> 65536 * B"
proof -
  have "size M = (\<Sum>h\<in>set_mset M. count M h)" by (rule size_multiset_overloaded_eq)
  also have "\<dots> \<le> (\<Sum>h\<in>set_mset M. B)" using assms by (intro sum_mono) (simp add: less_imp_le)
  also have "\<dots> = card (set_mset M) * B" by simp
  also have "card (set_mset M) \<le> card (UNIV :: UInt16 set)" by (intro card_mono) simp_all
  finally show ?thesis by (simp add: card_word)
qed

lemma symdiff_step_match:
  assumes "count C h < count NM h"
  shows "size (NM - add_mset h C) + size (add_mset h C - NM) + 1 = size (NM - C) + size (C - NM)"
proof -
  have a: "h \<in># NM - C" using assms by (simp add: in_diff_count)
  have e: "(NM - C) - {#h#} = NM - add_mset h C" by simp
  have "size ((NM - C) - {#h#}) = size (NM - C) - 1" using a by (rule size_Diff_singleton)
  moreover have "size (NM - C) \<noteq> 0" using a by auto
  ultimately have b: "size (NM - add_mset h C) + 1 = size (NM - C)"
    unfolding e by arith
  have c: "add_mset h C - NM = C - NM"
    using assms by (intro multiset_eqI) auto
  show ?thesis using b c by simp
qed

lemma symdiff_step_excess:
  assumes "\<not> count C h < count NM h"
  shows "size (NM - add_mset h C) + size (add_mset h C - NM) = size (NM - C) + size (C - NM) + 1"
proof -
  have a: "h \<notin># NM - C" using assms by (simp add: in_diff_count)
  have b: "NM - add_mset h C = NM - C"
    using assms by (intro multiset_eqI) auto
  have c: "add_mset h C - NM = add_mset h (C - NM)"
    using assms by (intro multiset_eqI) auto
  show ?thesis using b c by simp
qed

lemma score_symdiff:
  fixes NM :: "UInt16 multiset"
  assumes bound: "\<forall>h. count NM h < 32768"
  shows "size C + length hs \<le> 32768 \<Longrightarrow>
     snd (score hs (\<lambda>h. of_nat (count NM h) - of_nat (count C h),
                    of_nat (size (NM - C) + size (C - NM)))) =
       of_nat (size (NM - (C + mset hs)) + size ((C + mset hs) - NM))"
proof (induction hs arbitrary: C)
  case Nil
  show ?case by simp
next
  case (Cons h hs)
  let ?st = "\<lambda>x. (of_nat (count NM x) :: UInt16) - of_nat (count C x)"
  let ?C' = "add_mset h C"
  have cC: "count C h \<le> 32768" using Cons.prems count_le_size [of C h] by simp
  have s: "sint (?st h) = int (count NM h) - int (count C h)"
    using bound cC by (intro sint_counter) auto
  have st': "?st (h := ?st h - 1) = (\<lambda>x. of_nat (count NM x) - of_nat (count ?C' x))"
    by (rule ext) simp
  have sz: "size ?C' + length hs \<le> 32768" using Cons.prems by simp
  have d': "(if 0 < sint (?st h) then (of_nat (size (NM - C) + size (C - NM)) :: UInt64) - 1
             else of_nat (size (NM - C) + size (C - NM)) + 1)
          = of_nat (size (NM - ?C') + size (?C' - NM))"
  proof (cases "count C h < count NM h")
    case True
    have "(of_nat (size (NM - C) + size (C - NM)) :: UInt64) =
        of_nat (size (NM - ?C') + size (?C' - NM)) + 1"
      by (simp only: symdiff_step_match [OF True, symmetric] of_nat_add of_nat_1)
    then show ?thesis using True s by simp
  next
    case False
    have "(of_nat (size (NM - ?C') + size (?C' - NM)) :: UInt64) =
        of_nat (size (NM - C) + size (C - NM)) + 1"
      by (simp only: symdiff_step_excess [OF False] of_nat_add of_nat_1)
    then show ?thesis using False s by simp
  qed
  have "snd (score (h # hs) (?st, of_nat (size (NM - C) + size (C - NM)))) =
      snd (score hs (\<lambda>x. of_nat (count NM x) - of_nat (count ?C' x),
                     of_nat (size (NM - ?C') + size (?C' - NM))))"
    by (simp only: score.simps st' d')
  also have "\<dots> = of_nat (size (NM - (?C' + mset hs)) + size ((?C' + mset hs) - NM))"
    by (rule Cons.IH [OF sz])
  finally show ?case by simp
qed

lemma length_ngram_hashes_le: "length (ngram_hashes crc sl u ci bs) \<le> length bs"
  using unit_count_le [of sl u ci bs] by (cases u) (simp_all add: length_ngram_hashes ngram_N_def)

lemma count_ngram_hashes_bound:
  assumes "length needle \<le> max_string_size"
  shows "\<forall>h. count (mset (ngram_hashes crc sl u ci needle)) h < 32768"
proof
  fix h
  have "count (mset (ngram_hashes crc sl u ci needle)) h \<le> length (ngram_hashes crc sl u ci needle)"
    using count_le_size [of "mset (ngram_hashes crc sl u ci needle)" h] by simp
  also have "\<dots> < 32768"
    using assms unit_count_le [of sl u ci needle]
    by (auto simp: length_ngram_hashes ngram_N_def max_string_size_def)
  finally show "count (mset (ngram_hashes crc sl u ci needle)) h < 32768" .
qed

lemma ngrams_replicate:
  assumes "N \<le> n" "1 \<le> N"
  shows "ngrams N (replicate n a) = replicate (n + 1 - N) (replicate N a)"
proof (rule nth_equalityI)
  show "length (ngrams N (replicate n a)) = length (replicate (n + 1 - N) (replicate N a))" by simp
next
  fix k assume "k < length (ngrams N (replicate n a))"
  then have k: "k + N \<le> n" using assms by simp
  then have "ngrams N (replicate n a) ! k = take N (drop k (replicate n a))"
    using assms(2) by (intro ngrams_nth) simp_all
  also have "\<dots> = replicate N a" using k by (simp add: min_def)
  finally show "ngrams N (replicate n a) ! k = replicate (n + 1 - N) (replicate N a) ! k"
    using k assms by simp
qed

subsection \<open>The needle pass\<close>

lemma sum_table_counts:
  fixes M :: "UInt16 multiset"
  assumes "\<forall>h. count M h < 65536"
  shows "(\<Sum>h\<in>UNIV. unat (of_nat (count M h) :: UInt16)) = size M"
proof -
  have u: "unat (of_nat (count M h) :: UInt16) = count M h" for h
    using assms by (simp add: unat_of_nat)
  have "(\<Sum>h\<in>UNIV. count M h) = (\<Sum>h\<in>set_mset M. count M h)"
    by (rule sum.mono_neutral_right) (auto simp: not_in_iff)
  then show ?thesis by (simp add: u size_multiset_overloaded_eq)
qed

lemma restore_zero_count: "restore hs (\<lambda>_. 0) = (\<lambda>h. of_nat (count (mset hs) h))"
  by (rule ext) (simp add: restore_count count_mset)

lemma dispatch_needle_short:
  "size' < ngram_N UTF8 \<Longrightarrow>
   dispatch_calculateNeedleStats crc sl UTF8 ci buf data size' st = Some (0, st)"
  by (cases UTF8) (simp_all add: dispatch_calculateNeedleStats_def calculateNeedleStats_def ngram_N_def)

lemma dispatch_needle_char:
  assumes "\<forall>b. 1 \<le> sl b" "data + sz \<le> length buf" "ngram_N u \<le> sz"
  shows "dispatch_calculateNeedleStats crc sl u ci buf data sz st =
     Some (of_nat (unit_count sl u ci (take sz (drop data buf))) - of_nat (ngram_N u) + 1,
           restore (ngram_hashes crc sl u ci (take sz (drop data buf))) st)"
proof (cases u)
  case True
  have l: "\<And>w. UTF8Hash crc w = UTF8Hash crc (take 3 w)"
    using hash_local_UTF8Hash [of crc] by (simp add: hash_local_def)
  have n: "3 \<le> sz" using assms(3) True by (simp add: ngram_N_def)
  show ?thesis
    using calculateNeedleStats_char [where hf = "UTF8Hash crc" and N = 3,
        OF reader_ok_utf8 [OF assms(1)] l assms(2) n, of ci st] True
    by (simp add: dispatch_calculateNeedleStats_def unit_count_def ngram_hashes_def ngram_N_def)
next
  case False
  have l: "\<And>w. ASCIIHash crc w = ASCIIHash crc (take 4 w)"
    using hash_local_ASCIIHash [of crc] by (simp add: hash_local_def)
  have n: "4 \<le> sz" using assms(3) False by (simp add: ngram_N_def)
  show ?thesis
    using calculateNeedleStats_char [where hf = "ASCIIHash crc" and N = 4,
        OF reader_ok_ascii l assms(2) n, of ci st] False
    by (simp add: dispatch_calculateNeedleStats_def unit_count_def ngram_hashes_def ngram_N_def)
qed

lemma needle_count_word:
  assumes "N - 1 \<le> n" "n < 2 ^ 64" "1 \<le> N"
  shows "unat ((of_nat n :: UInt64) - of_nat N + 1) = n + 1 - N"
proof -
  have "(of_nat n :: UInt64) - of_nat N + 1 = of_nat (n + 1 - N)"
    using assms(1,3) by (simp add: of_nat_diff)
  moreover have "n + 1 - N < 2 ^ 64" using assms by simp
  ultimately show ?thesis by (simp add: unat_of_nat64)
qed

lemma count_list_replicate: "count_list (replicate n h) x = (if x = h then n else 0)"
  by (induction n) auto

lemma restore_replicate:
  "restore (replicate n h) st = st (h := st h + of_nat n)"
  by (rule ext) (simp add: restore_count count_list_replicate)

subsection \<open>Wrapped counts and the range of the results\<close>

lemma score_shift: "snd (score hs (st, d + x)) = snd (score hs (st, d)) + x"
proof (induction hs arbitrary: st d)
  case Nil
  show ?case by simp
next
  case (Cons h hs)
  have a: "d + x - 1 = (d - 1) + x" "d + x + 1 = (d + 1) + x" by simp_all
  show ?case
  proof (cases "0 < sint (st h)")
    case True
    have "snd (score (h # hs) (st, d + x)) = snd (score hs (st (h := st h - 1), (d - 1) + x))"
      by (simp only: score.simps True if_True a)
    also have "\<dots> = snd (score hs (st (h := st h - 1), d - 1)) + x" by (rule Cons.IH)
    also have "\<dots> = snd (score (h # hs) (st, d)) + x"
      by (simp only: score.simps True if_True)
    finally show ?thesis .
  next
    case False
    have "snd (score (h # hs) (st, d + x)) = snd (score hs (st (h := st h - 1), (d + 1) + x))"
      by (simp only: score.simps False if_False a)
    also have "\<dots> = snd (score hs (st (h := st h - 1), d + 1)) + x" by (rule Cons.IH)
    also have "\<dots> = snd (score (h # hs) (st, d)) + x"
      by (simp only: score.simps False if_False)
    finally show ?thesis .
  qed
qed

lemma score_zero_table:
  assumes "length hs \<le> 32768"
  shows "snd (score hs (\<lambda>_. 0, d)) = d + of_nat (length hs)"
proof -
  have b: "\<forall>h. count ({#} :: UInt16 multiset) h < 32768" by simp
  have "snd (score hs (\<lambda>h. of_nat (count ({#} :: UInt16 multiset) h) - of_nat (count ({#} :: UInt16 multiset) h),
                    of_nat (size (({#} :: UInt16 multiset) - {#}) + size (({#} :: UInt16 multiset) - {#})))) =
       of_nat (size ({#} - ({#} + mset hs)) + size (({#} + mset hs) - {#}))"
    using assms by (intro score_symdiff [OF b]) simp
  then have "snd (score hs (\<lambda>_. 0, 0)) = of_nat (length hs)" by simp
  then show ?thesis using score_shift [of hs "\<lambda>_. 0" 0 d] by simp
qed

lemma utf8_units_Cons:
  "utf8_units sl ci (b # bs) =
     utf8_res ci (min (sl b) (Suc (length bs))) (take 4 (b # bs))
       # utf8_units sl ci (drop (max (min (sl b) (Suc (length bs))) 1) (b # bs))"
  by (subst utf8_units.simps) (simp add: Let_def)

lemma units_euro: "unit_count seqLength_table True False [0xE2, 0x82, 0xAC] = 1"
  by (simp add: unit_count_def utf8_units_Cons seqLength_table_def)

lemma units_abc: "unit_count seqLength_table True False [97, 98, 99] = 3"
  by (simp add: unit_count_def utf8_units_Cons seqLength_table_def)

lemma needle_stats_euro:
  "dispatch_needle_stats intHash64 seqLength_table True False [0xE2, 0x82, 0xAC] = (- 1, \<lambda>_. 0)"
proof -
  have "length (ngram_hashes intHash64 seqLength_table True False [0xE2, 0x82, 0xAC]) = 0"
    by (simp add: length_ngram_hashes units_euro ngram_N_def)
  then have "ngram_hashes intHash64 seqLength_table True False [0xE2, 0x82, 0xAC] = []" by simp
  then show ?thesis by (simp add: dispatch_needle_stats_def units_euro ngram_N_def)
qed

lemma needle_stats_abc:
  "\<exists>h. dispatch_needle_stats intHash64 seqLength_table True False [97, 98, 99] = (1, (\<lambda>_. 0)(h := 1))"
proof -
  have "length (ngram_hashes intHash64 seqLength_table True False [97, 98, 99]) = 1"
    by (simp add: length_ngram_hashes units_abc ngram_N_def)
  then obtain h where "ngram_hashes intHash64 seqLength_table True False [97, 98, 99] = [h]"
    by (cases "ngram_hashes intHash64 seqLength_table True False [97, 98, 99]") auto
  then show ?thesis by (auto simp: dispatch_needle_stats_def units_abc ngram_N_def)
qed

lemma result_on_needle_euro:
  assumes "length data \<le> max_string_size"
  shows "dispatch_constant_constant intHash64 seqLength_table True False data [0xE2, 0x82, 0xAC] =
    Some (Float32_div
            (of_nat (length (ngram_hashes intHash64 seqLength_table True False data)) - 1)
            (max (of_nat (length (ngram_hashes intHash64 seqLength_table True False data)) - 1) 1))"
proof -
  have "length (ngram_hashes intHash64 seqLength_table True False data) \<le> 32768"
    using length_ngram_hashes_le [of intHash64 seqLength_table True False data] assms
    by (simp add: max_string_size_def)
  then show ?thesis
    using assms
    by (simp add: dispatch_constant_constant_char [OF seqLength_table_pos] needle_stats_euro
        dispatch_row_result_def score_zero_table)
qed

lemma sint_neg_counter:
  assumes "c \<le> 32768"
  shows "sint (- (of_nat c :: UInt16)) = - int c"
  using sint_counter [of 0 c] assms by simp

lemma dec_imp_unmatched:
  assumes "count C h \<le> 32768" and "0 < sint ((of_nat (count NM h) :: UInt16) - of_nat (count C h))"
  shows "count C h < count NM h"
proof (rule ccontr)
  assume "\<not> count C h < count NM h"
  then have le: "count NM h \<le> count C h" by simp
  then have "(of_nat (count NM h) :: UInt16) - of_nat (count C h)
      = - of_nat (count C h - count NM h)" by (simp add: of_nat_diff)
  moreover have "count C h - count NM h \<le> 32768" using assms(1) by simp
  ultimately have "sint ((of_nat (count NM h) :: UInt16) - of_nat (count C h))
      = - int (count C h - count NM h)" by (simp only: sint_neg_counter)
  then show False using assms(2) by simp
qed

lemma unmatched_step:
  assumes "count C h < count NM h"
  shows "size (NM - add_mset h C) + 1 = size (NM - C)"
proof -
  have a: "h \<in># NM - C" using assms by (simp add: in_diff_count)
  have e: "(NM - C) - {#h#} = NM - add_mset h C" by simp
  have "size ((NM - C) - {#h#}) = size (NM - C) - 1" using a by (rule size_Diff_singleton)
  moreover have "size (NM - C) \<noteq> 0" using a by auto
  ultimately show ?thesis unfolding e by arith
qed

lemma score_bounds:
  fixes NM :: "UInt16 multiset"
  assumes big: "size NM + 32768 < 2 ^ 64"
  shows "size C + length hs \<le> 32768 \<Longrightarrow> size (NM - C) \<le> unat d \<Longrightarrow> unat d \<le> size NM + size C \<Longrightarrow>
     size (NM - (C + mset hs))
       \<le> unat (snd (score hs (\<lambda>h. of_nat (count NM h) - of_nat (count C h), d))) \<and>
     unat (snd (score hs (\<lambda>h. of_nat (count NM h) - of_nat (count C h), d)))
       \<le> size NM + size (C + mset hs)"
proof (induction hs arbitrary: C d)
  case Nil
  then show ?case by simp
next
  case (Cons h hs)
  let ?st = "\<lambda>x. (of_nat (count NM x) :: UInt16) - of_nat (count C x)"
  let ?C' = "add_mset h C"
  let ?d' = "if 0 < sint (?st h) then d - 1 else d + 1"
  have cC: "count C h \<le> 32768" using Cons.prems(1) count_le_size [of C h] by simp
  have st': "?st (h := ?st h - 1) = (\<lambda>x. of_nat (count NM x) - of_nat (count ?C' x))"
    by (rule ext) simp
  have sz: "size ?C' + length hs \<le> 32768" using Cons.prems(1) by simp
  have lo_hi: "size (NM - ?C') \<le> unat ?d' \<and> unat ?d' \<le> size NM + size ?C'"
  proof (cases "0 < sint (?st h)")
    case True
    have un: "count C h < count NM h" using cC True by (rule dec_imp_unmatched)
    have s1: "size (NM - ?C') + 1 = size (NM - C)" using un by (rule unmatched_step)
    then have "1 \<le> unat d" using Cons.prems(2) by simp
    then have "d \<noteq> 0" by auto
    then have u: "unat (d - 1) = unat d - 1" by (rule unat_minus_one)
    have "size (NM - ?C') \<le> unat d - 1" using s1 Cons.prems(2) by arith
    moreover have "unat d - 1 \<le> size NM + size ?C'" using Cons.prems(3) by simp
    ultimately show ?thesis using True by (simp only: u if_True)
  next
    case False
    have m: "size (NM - ?C') \<le> size (NM - C)"
      by (intro size_mset_mono mset_subset_eqI) auto
    have "unat d + 1 < 2 ^ 64" using Cons.prems(1,3) big by simp
    then have u: "unat (d + 1) = unat d + 1"
      by (simp add: unat_word_ariths take_bit_nat_eq_self unsigned_eq_0_iff)
    have "size (NM - ?C') \<le> unat d + 1" using m Cons.prems(2) by arith
    moreover have "unat d + 1 \<le> size NM + size ?C'" using Cons.prems(3) by simp
    ultimately show ?thesis using False by (simp only: u if_False)
  qed
  have "snd (score (h # hs) (?st, d)) =
      snd (score hs (\<lambda>x. of_nat (count NM x) - of_nat (count ?C' x), ?d'))"
    by (simp only: score.simps st')
  moreover have "size (NM - (?C' + mset hs))
       \<le> unat (snd (score hs (\<lambda>h. of_nat (count NM h) - of_nat (count ?C' h), ?d'))) \<and>
     unat (snd (score hs (\<lambda>h. of_nat (count NM h) - of_nat (count ?C' h), ?d')))
       \<le> size NM + size (?C' + mset hs)"
    using lo_hi by (intro Cons.IH [OF sz]) simp_all
  ultimately show ?case by simp
qed

lemma unit_count_pos: "bs \<noteq> [] \<Longrightarrow> 1 \<le> unit_count sl u ci bs"
proof -
  assume a: "bs \<noteq> []"
  then have "utf8_units sl ci bs \<noteq> []" by simp
  then have "1 \<le> length (utf8_units sl ci bs)" by (cases "utf8_units sl ci bs") auto
  moreover have "1 \<le> length bs" using a by (cases bs) auto
  ultimately show ?thesis by (simp add: unit_count_def)
qed

lemma needle_stats_table:
  "snd (dispatch_needle_stats crc sl u ci needle)
     = (\<lambda>h. of_nat (count (mset (ngram_hashes crc sl u ci needle)) h))"
  by (simp add: dispatch_needle_table restore_zero_count)

lemma needle_stats_count:
  "fst (dispatch_needle_stats crc sl u ci needle) = of_nat (length (ngram_hashes crc sl u ci needle))
   \<or> (fst (dispatch_needle_stats crc sl u ci needle) = - 1 \<and> ngram_hashes crc sl u ci needle = [])"
proof (cases "length needle < ngram_N u")
  case True
  then show ?thesis by (simp add: dispatch_needle_stats_def ngram_hashes_short)
next
  case False
  then have ne: "needle \<noteq> []" by (auto simp: ngram_N_def split: if_splits)
  have c: "fst (dispatch_needle_stats crc sl u ci needle)
      = of_nat (unit_count sl u ci needle) - of_nat (ngram_N u) + 1"
    using False by (simp add: dispatch_needle_stats_def)
  show ?thesis
  proof (cases "ngram_N u - 1 \<le> unit_count sl u ci needle")
    case True
    have "(of_nat (unit_count sl u ci needle) :: UInt64) - of_nat (ngram_N u) + 1
        = of_nat (unit_count sl u ci needle + 1 - ngram_N u)"
      using True by (simp add: of_nat_diff ngram_N_def split: if_splits)
    then show ?thesis by (simp add: c length_ngram_hashes)
  next
    case F: False
    have p: "1 \<le> unit_count sl u ci needle" using ne by (rule unit_count_pos)
    have u: "u"
    proof (rule ccontr)
      assume "\<not> u"
      then show False using F False by (simp add: unit_count_def ngram_N_def ascii_units_def split: if_splits)
    qed
    then have one: "unit_count sl u ci needle = 1" using F p by (simp add: ngram_N_def)
    have "length (ngram_hashes crc sl u ci needle) = 0"
      using u one by (simp add: length_ngram_hashes ngram_N_def)
    then have "ngram_hashes crc sl u ci needle = []" by simp
    moreover have "fst (dispatch_needle_stats crc sl u ci needle) = - 1"
      unfolding c using u one by (simp add: ngram_N_def)
    ultimately show ?thesis by simp
  qed
qed

lemma score_table:
  "fst (score hs (\<lambda>h. of_nat (count NM h), d)) x
     = (of_nat (count NM x) :: UInt16) - of_nat (count (mset hs) x)"
  by (simp add: score_count count_mset)

lemma no_underflow:
  fixes NM :: "UInt16 multiset"
  assumes "length hs \<le> 32768" "j < length hs"
    and "0 < sint (fst (score (take j hs) (\<lambda>h. of_nat (count NM h), d)) (hs ! j))"
  shows "count (mset (take j hs)) (hs ! j) < count NM (hs ! j)"
proof -
  have "count (mset (take j hs)) (hs ! j) \<le> size (mset (take j hs))" by (rule count_le_size)
  then have "count (mset (take j hs)) (hs ! j) \<le> 32768" using assms(1,2) by simp
  then show ?thesis using assms(3) unfolding score_table by (rule dec_imp_unmatched)
qed

lemma unat_max_one: "unat (max (x :: UInt64) 1) = max (unat x) 1"
  by (simp add: max_def word_le_nat_alt)

lemma running_distance:
  fixes crc sl u ci needle
  defines "ns \<equiv> dispatch_needle_stats crc sl u ci needle"
  assumes "length needle < 2 ^ 63" "length hs \<le> 32768" "j \<le> length hs"
  shows "unat (snd (score (take j hs) (snd ns, fst ns))) \<le> unat (fst ns) + j"
    and "j < length hs \<Longrightarrow> 0 < sint (fst (score (take j hs) (snd ns, fst ns)) (hs ! j)) \<Longrightarrow>
           snd (score (take j hs) (snd ns, fst ns)) \<noteq> 0"
    and "unat (snd (score hs (snd ns, fst ns))) \<le> unat (max (of_nat (length hs) + fst ns) 1)"
proof -
  define NM where "NM = mset (ngram_hashes crc sl u ci needle)"
  have T: "snd ns = (\<lambda>h. of_nat (count NM h))" by (simp add: ns_def NM_def needle_stats_table)
  have szNM: "size NM \<le> length needle" by (simp add: NM_def length_ngram_hashes_le)
  then have big: "size NM + 32768 < 2 ^ 64" using assms(2) by simp
  have lt: "length (take j hs) \<le> 32768" using assms(3,4) by simp
  have lj: "length (take j hs) = j" using assms(4) by simp
  have cases: "fst ns = of_nat (size NM) \<or> (fst ns = - 1 \<and> NM = {#})"
    using needle_stats_count [of crc sl u ci needle] by (auto simp: ns_def NM_def)
  have bounds: "size (NM - mset hs') \<le> unat (snd (score hs' (snd ns, fst ns))) \<and>
      unat (snd (score hs' (snd ns, fst ns))) \<le> size NM + length hs'"
    if r: "fst ns = of_nat (size NM)" and l: "length hs' \<le> 32768" for hs'
  proof -
    have u: "unat (of_nat (size NM) :: UInt64) = size NM" using big by (intro unat_of_nat64) simp
    have "size (NM - ({#} + mset hs'))
       \<le> unat (snd (score hs' (\<lambda>h. of_nat (count NM h) - of_nat (count ({#} :: UInt16 multiset) h), of_nat (size NM)))) \<and>
     unat (snd (score hs' (\<lambda>h. of_nat (count NM h) - of_nat (count ({#} :: UInt16 multiset) h), of_nat (size NM))))
       \<le> size NM + size ({#} + mset hs')"
      using l by (intro score_bounds [OF big]) (simp_all add: u)
    then show ?thesis by (simp add: T r)
  qed
  have zero: "snd (score hs' (snd ns, fst ns)) = of_nat (length hs') - 1"
    if s: "fst ns = - 1 \<and> NM = {#}" and l: "length hs' \<le> 32768" for hs'
    using score_zero_table [OF l, of "- 1"] s by (simp add: T)
  show "unat (snd (score (take j hs) (snd ns, fst ns))) \<le> unat (fst ns) + j"
    using cases
  proof
    assume r: "fst ns = of_nat (size NM)"
    have "unat (fst ns) = size NM" unfolding r using big by (intro unat_of_nat64) simp
    then show ?thesis using bounds [OF r lt] lj by simp
  next
    assume s: "fst ns = - 1 \<and> NM = {#}"
    show ?thesis
    proof (cases j)
      case 0
      then show ?thesis by simp
    next
      case (Suc n)
      have "n < 2 ^ 64" using Suc assms(3,4) by simp
      then have "unat (of_nat n :: UInt64) = n" by (rule unat_of_nat64)
      then show ?thesis using zero [OF s lt] lj Suc by simp
    qed
  qed
  show "snd (score (take j hs) (snd ns, fst ns)) \<noteq> 0"
    if jl: "j < length hs" and pos: "0 < sint (fst (score (take j hs) (snd ns, fst ns)) (hs ! j))"
  proof -
    have un: "count (mset (take j hs)) (hs ! j) < count NM (hs ! j)"
      using pos unfolding T by (rule no_underflow [OF assms(3) jl])
    then have "hs ! j \<in># NM - mset (take j hs)" by (simp add: in_diff_count)
    then have one: "1 \<le> size (NM - mset (take j hs))"
      by (metis One_nat_def Suc_leI gr0I empty_iff set_mset_empty size_eq_0_iff_empty)
    have "NM \<noteq> {#}" using un by auto
    then have r: "fst ns = of_nat (size NM)" using cases by simp
    have "1 \<le> unat (snd (score (take j hs) (snd ns, fst ns)))"
      using bounds [OF r lt] one by simp
    then show ?thesis by auto
  qed
  show "unat (snd (score hs (snd ns, fst ns))) \<le> unat (max (of_nat (length hs) + fst ns) 1)"
    using cases
  proof
    assume r: "fst ns = of_nat (size NM)"
    have "length hs + size NM < 2 ^ 64" using big assms(3) by simp
    then have "unat (of_nat (length hs) + of_nat (size NM) :: UInt64) = length hs + size NM"
      using unat_of_nat64 [of "length hs + size NM"] by simp
    then have m: "unat (max (of_nat (length hs) + fst ns) 1) = max (length hs + size NM) 1"
      by (simp add: unat_max_one r)
    have b: "unat (snd (score hs (snd ns, fst ns))) \<le> size NM + length hs"
      using bounds [OF r assms(3)] by simp
    show ?thesis unfolding m using b by arith
  next
    assume s: "fst ns = - 1 \<and> NM = {#}"
    then show ?thesis using zero [OF s assms(3)] by (simp add: unat_max_one)
  qed
qed

lemma quotient_range:
  assumes "a \<le> b" "1 \<le> b"
  shows "0 \<le> (of_nat a / of_nat b :: rat)" "(of_nat a / of_nat b :: rat) \<le> 1"
  using assms by simp_all

lemma row_result_range:
  assumes "length needle < 2 ^ 63"
  shows "0 \<le> Float32_value (dispatch_row_result crc sl u ci (dispatch_needle_stats crc sl u ci needle) row)
    \<and> Float32_value (dispatch_row_result crc sl u ci (dispatch_needle_stats crc sl u ci needle) row) \<le> 1"
proof (cases "length row \<le> max_string_size")
  case False
  then show ?thesis by (simp add: dispatch_row_result_def)
next
  case True
  define hs where "hs = ngram_hashes crc sl u ci row"
  define ns where "ns = dispatch_needle_stats crc sl u ci needle"
  have "length hs \<le> length row" unfolding hs_def by (rule length_ngram_hashes_le)
  then have l: "length hs \<le> 32768" using True by (simp add: max_string_size_def)
  have le: "unat (snd (score hs (snd ns, fst ns))) \<le> unat (max (of_nat (length hs) + fst ns) 1)"
    unfolding ns_def by (rule running_distance(3) [OF assms l le_refl])
  have one: "1 \<le> unat (max (of_nat (length hs) + fst ns) 1)" by (simp add: unat_max_one)
  show ?thesis
    using True quotient_range [OF le one]
    by (simp add: dispatch_row_result_def hs_def [symmetric] ns_def [symmetric])
qed

lemma dispatch_haystack_padded:
  assumes "\<forall>b. 1 \<le> sl b"
  shows "dispatch_calculateHaystackStatsAndMetric crc sl u ci (row @ replicate default_padding 0) 0
      (length row) T c
    = Some (of_nat (length (ngram_hashes crc sl u ci row)), T,
            snd (score (ngram_hashes crc sl u ci row) (T, c)))"
  using dispatch_haystack_pass [OF assms, of 0 "length row" "row @ replicate default_padding 0"] by simp

section \<open>The claims\<close>

text \<open>
  Claim C1, as amended (distance is the multiset symmetric difference). Let the table hold
  the needle's per-hash n-gram counts and \<open>distance\<close> start at the needle's n-gram count.
  If no hash occurs 32768 times or more among the needle's n-grams (as for every needle of
  at most \<open>max_string_size\<close> bytes), then for every haystack of at most \<open>max_string_size\<close>
  bytes \<open>calculateHaystackStatsAndMetric\<close> returns the haystack's n-gram count, the table
  unchanged, and as \<open>distance\<close> the size of the symmetric difference of the two multisets
  of hashes.
\<close>

theorem C1_distance_symmetric_difference:
  fixes intHashCRC32 seqLength UTF8 CaseInsensitive needle buf haystack haystack_size
  defines "NM \<equiv> mset (ngram_hashes intHashCRC32 seqLength UTF8 CaseInsensitive needle)"
    and "HM \<equiv> mset (ngram_hashes intHashCRC32 seqLength UTF8 CaseInsensitive
                       (take haystack_size (drop haystack buf)))"
  assumes "\<forall>b. 1 \<le> seqLength b" and "haystack + haystack_size \<le> length buf"
    and "haystack_size \<le> max_string_size" and "\<forall>h. count NM h < 32768"
  shows "\<exists>distance.
     dispatch_calculateHaystackStatsAndMetric intHashCRC32 seqLength UTF8 CaseInsensitive
       buf haystack haystack_size (\<lambda>h. of_nat (count NM h)) (of_nat (size NM))
       = Some (of_nat (size HM), \<lambda>h. of_nat (count NM h), distance) \<and>
     unat distance = size (NM - HM) + size (HM - NM)"
proof -
  define hs where "hs = ngram_hashes intHashCRC32 seqLength UTF8 CaseInsensitive
                       (take haystack_size (drop haystack buf))"
  have HM: "HM = mset hs" by (simp add: HM_def hs_def)
  have "length hs \<le> length (take haystack_size (drop haystack buf))"
    unfolding hs_def by (rule length_ngram_hashes_le)
  then have lh: "length hs \<le> 32768" using assms(5) by (simp add: max_string_size_def)
  have sc: "snd (score hs (\<lambda>h. of_nat (count NM h) - of_nat (count {#} h),
                    of_nat (size (NM - {#}) + size ({#} - NM)))) =
       of_nat (size (NM - ({#} + mset hs)) + size (({#} + mset hs) - NM))"
    using lh by (intro score_symdiff [OF assms(6)]) simp
  have "size (NM - HM) \<le> size NM" by (intro size_mset_mono diff_subset_eq_self)
  then have b1: "size (NM - HM) \<le> 65536 * 32768"
    using size_le_of_count [OF assms(6)] by simp
  have "size (HM - NM) \<le> size HM" by (intro size_mset_mono diff_subset_eq_self)
  then have b2: "size (HM - NM) \<le> 32768" using lh by (simp add: HM)
  have "size (NM - HM) + size (HM - NM) < 2 ^ 64" using b1 b2 by simp
  then have u: "unat (of_nat (size (NM - HM) + size (HM - NM)) :: UInt64) =
      size (NM - HM) + size (HM - NM)" by (rule unat_of_nat64)
  show ?thesis
    using dispatch_haystack_pass [OF assms(3) assms(4), of intHashCRC32 UTF8 CaseInsensitive
        "\<lambda>h. of_nat (count NM h)" "of_nat (size NM)"] sc u
    by (simp add: hs_def [symmetric] HM)
qed

theorem C1_distance_symmetric_difference_witness:
  "(\<forall>b. 1 \<le> seqLength_table b) \<and>
   (0::nat) + 4 \<le> length ([97, 98, 99, 100] @ replicate default_padding (0::UInt8)) \<and>
   (4::nat) \<le> max_string_size \<and>
   (\<forall>h. count (mset (ngram_hashes intHash64 seqLength_table False False [97, 98, 99, 101])) h < 32768) \<and>
   (\<exists>distance.
     dispatch_calculateHaystackStatsAndMetric intHash64 seqLength_table False False
       ([97, 98, 99, 100] @ replicate default_padding 0) 0 4
       (\<lambda>h. of_nat (count (mset (ngram_hashes intHash64 seqLength_table False False [97, 98, 99, 101])) h))
       (of_nat (size (mset (ngram_hashes intHash64 seqLength_table False False [97, 98, 99, 101]))))
       = Some (of_nat (size (mset (ngram_hashes intHash64 seqLength_table False False
                  (take 4 (drop 0 ([97, 98, 99, 100] @ replicate default_padding 0)))))),
               \<lambda>h. of_nat (count (mset (ngram_hashes intHash64 seqLength_table False False [97, 98, 99, 101])) h),
               distance) \<and>
     unat distance =
       size (mset (ngram_hashes intHash64 seqLength_table False False [97, 98, 99, 101])
             - mset (ngram_hashes intHash64 seqLength_table False False
                  (take 4 (drop 0 ([97, 98, 99, 100] @ replicate default_padding 0))))) +
       size (mset (ngram_hashes intHash64 seqLength_table False False
                  (take 4 (drop 0 ([97, 98, 99, 100] @ replicate default_padding 0))))
             - mset (ngram_hashes intHash64 seqLength_table False False [97, 98, 99, 101])))"
proof -
  have h1: "\<forall>b. 1 \<le> seqLength_table b" by (rule seqLength_table_pos)
  have h2: "(0::nat) + 4 \<le> length ([97, 98, 99, 100] @ replicate default_padding (0::UInt8))" by simp
  have h3: "(4::nat) \<le> max_string_size" by (simp add: max_string_size_def)
  have h4: "\<forall>h. count (mset (ngram_hashes intHash64 seqLength_table False False [97, 98, 99, 101])) h < 32768"
    by (rule count_ngram_hashes_bound) (simp add: max_string_size_def)
  show ?thesis
    using h1 h2 h3 h4 C1_distance_symmetric_difference [OF h1 h2 h3 h4]
    by blast
qed

text \<open>
  The claim as stated, for every needle, fails: the counters are read as signed 16-bit
  values. A needle of 32771 bytes \<open>a\<close> has the 4-gram \<open>aaaa\<close> 32768 times, so its counter
  reads as \<open>-32768\<close>; the haystack \<open>aaaa\<close> then increments \<open>distance\<close> to 32769, while the
  symmetric difference has 32767 elements.
\<close>

theorem C1_counterexample:
  "dispatch_calculateHaystackStatsAndMetric intHash64 seqLength_table False False
       ([97, 97, 97, 97] @ replicate default_padding 0) 0 4
       (\<lambda>h. of_nat (count (mset (ngram_hashes intHash64 seqLength_table False False (replicate 32771 97))) h))
       (of_nat (size (mset (ngram_hashes intHash64 seqLength_table False False (replicate 32771 97)))))
     = Some (1,
             \<lambda>h. of_nat (count (mset (ngram_hashes intHash64 seqLength_table False False (replicate 32771 97))) h),
             32769) \<and>
   size (mset (ngram_hashes intHash64 seqLength_table False False (replicate 32771 97))
         - mset (ngram_hashes intHash64 seqLength_table False False [97, 97, 97, 97])) +
   size (mset (ngram_hashes intHash64 seqLength_table False False [97, 97, 97, 97])
         - mset (ngram_hashes intHash64 seqLength_table False False (replicate 32771 97)))
     = 32767"
proof -
  define h where "h = ASCIIHash intHash64 (replicate 4 97)"
  define NM where "NM = mset (ngram_hashes intHash64 seqLength_table False False (replicate 32771 97))"
  define HM where "HM = mset (ngram_hashes intHash64 seqLength_table False False [97, 97, 97, 97])"
  have r4: "[97, 97, 97, 97 :: UInt8] = replicate 4 97" by (simp add: numeral_eq_Suc)
  have nh: "ngram_hashes intHash64 seqLength_table False False (replicate 32771 97) = replicate 32768 h"
    by (simp add: ngram_hashes_def ascii_units_def ngrams_replicate h_def)
  have hh: "ngram_hashes intHash64 seqLength_table False False [97, 97, 97, 97] = [h]"
    unfolding r4 by (simp add: ngram_hashes_def ascii_units_def ngrams_replicate h_def)
  have NM: "NM = replicate_mset 32768 h" by (simp add: NM_def nh)
  have HM: "HM = {#h#}" by (simp add: HM_def hh)
  have tk: "take 4 (drop 0 ([97, 97, 97, 97] @ replicate default_padding (0::UInt8))) = [97, 97, 97, 97]"
    by simp
  have e: "(0::nat) + 4 \<le> length ([97, 97, 97, 97] @ replicate default_padding (0::UInt8))" by simp
  have neg: "\<not> 0 < sint (32768 :: UInt16)" by simp
  have run: "dispatch_calculateHaystackStatsAndMetric intHash64 seqLength_table False False
       ([97, 97, 97, 97] @ replicate default_padding 0) 0 4 (\<lambda>x. of_nat (count NM x)) (of_nat (size NM))
     = Some (1, \<lambda>x. of_nat (count NM x), 32769)"
    using dispatch_haystack_pass [OF seqLength_table_pos e, of intHash64 False False
        "\<lambda>x. of_nat (count NM x)" "of_nat (size NM)"] neg
    unfolding tk hh by (simp add: NM)
  have "NM - HM = replicate_mset 32767 h"
    unfolding NM HM by (rule multiset_eqI) simp
  moreover have "HM - NM = {#}"
    unfolding NM HM by (rule multiset_eqI) simp
  ultimately have sz: "size (NM - HM) + size (HM - NM) = 32767" by simp
  show ?thesis using run sz unfolding NM_def HM_def by simp
qed

text \<open>
  Claim C2 (table restoration). In one \<open>vector_constant\<close> call over a column whose offsets
  increase inside the buffer, after any number \<open>k\<close> of rows the stats table is the table
  that the needle pass left: the row loop, started on the needle's table, arrives with that
  same table whether the rows were scored or skipped as oversize. The reason is the second
  part: every call of \<open>calculateHaystackStatsAndMetric\<close> returns, and returns the table it
  was given, for any table and any \<open>distance\<close>. For the UTF-8 instantiations the loops end
  because \<open>seqLength\<close> never returns 0.
\<close>

theorem C2_table_restoration:
  assumes "\<forall>b. 1 \<le> seqLength b" and "offsets_ok data 0 offsets"
    and "haystack + haystack_size \<le> length buf"
  shows "(\<exists>needle_stats_size common_stats.
           dispatch_calculateNeedleStats intHashCRC32 seqLength UTF8 CaseInsensitive
             (needle @ replicate default_padding 0) 0 (length needle) (\<lambda>_. 0)
             = Some (needle_stats_size, common_stats) \<and>
           (\<exists>distance prev_offset res.
              dispatch_vector_constant_rows intHashCRC32 seqLength UTF8 CaseInsensitive data
                needle_stats_size (take k offsets) (common_stats, needle_stats_size, 0, [])
                = Some (common_stats, distance, prev_offset, res))) \<and>
         (\<exists>ngram_cnt distance'.
            dispatch_calculateHaystackStatsAndMetric intHashCRC32 seqLength UTF8 CaseInsensitive
              buf haystack haystack_size ngram_stats distance
              = Some (ngram_cnt, ngram_stats, distance'))"
proof -
  obtain c T where ns: "dispatch_needle_stats intHashCRC32 seqLength UTF8 CaseInsensitive needle = (c, T)"
    by (cases "dispatch_needle_stats intHashCRC32 seqLength UTF8 CaseInsensitive needle") auto
  have wf: "offsets_ok data 0 (take k offsets)" using assms(2) by (rule offsets_ok_take)
  show ?thesis
    using dispatch_needle_pass [OF assms(1), of intHashCRC32 UTF8 CaseInsensitive needle]
      dispatch_vector_constant_rows_char [OF assms(1) wf, of intHashCRC32 UTF8 CaseInsensitive c T "[]"]
      dispatch_haystack_pass [OF assms(1) assms(3), of intHashCRC32 UTF8 CaseInsensitive ngram_stats distance]
    by (simp add: ns)
qed

theorem C2_table_restoration_witness:
  "(\<forall>b. 1 \<le> seqLength_table b) \<and> offsets_ok [97, 98, 99, 100, 0, 120, 0] 0 [5, 7]
   \<and> (0::nat) + 4 \<le> length [97, 98, 99, 100, 0, 120, 0 :: UInt8] \<and>
   ((\<exists>needle_stats_size common_stats.
           dispatch_calculateNeedleStats intHash64 seqLength_table False False
             ([97, 98, 99, 100] @ replicate default_padding 0) 0 (length [97, 98, 99, 100 :: UInt8]) (\<lambda>_. 0)
             = Some (needle_stats_size, common_stats) \<and>
           (\<exists>distance prev_offset res.
              dispatch_vector_constant_rows intHash64 seqLength_table False False [97, 98, 99, 100, 0, 120, 0]
                needle_stats_size (take 1 [5, 7]) (common_stats, needle_stats_size, 0, [])
                = Some (common_stats, distance, prev_offset, res))) \<and>
         (\<exists>ngram_cnt distance'.
            dispatch_calculateHaystackStatsAndMetric intHash64 seqLength_table False False
              [97, 98, 99, 100, 0, 120, 0] 0 4 (\<lambda>_. 0) 0
              = Some (ngram_cnt, \<lambda>_. 0, distance')))"
proof -
  have h1: "\<forall>b. 1 \<le> seqLength_table b" by (rule seqLength_table_pos)
  have h2: "offsets_ok [97, 98, 99, 100, 0, 120, 0] 0 [5, 7]" by simp
  have h3: "(0::nat) + 4 \<le> length [97, 98, 99, 100, 0, 120, 0 :: UInt8]" by simp
  show ?thesis
    using h1 h2 h3 C2_table_restoration [OF h1 h2 h3, of intHash64 False False "[97, 98, 99, 100]" 1 "\<lambda>_. 0" 0]
    by blast
qed

text \<open>
  Claim C3 (independence from batching). For a column whose offsets increase inside the
  buffer, \<open>vector_constant\<close> returns one result per row, and the result of row \<open>i\<close> is the
  result of \<open>constant_constant\<close> on that row alone (the \<open>offsets[i] - prev_offset - 1\<close>
  bytes at \<open>prev_offset\<close>) and the same needle: nothing of the other rows enters it.
\<close>

theorem C3_independence_from_batching:
  assumes "\<forall>b. 1 \<le> seqLength b" and "offsets_ok data 0 offsets"
  shows "\<exists>res. dispatch_vector_constant intHashCRC32 seqLength UTF8 CaseInsensitive data offsets needle
             = Some res \<and>
           length res = length offsets \<and>
           (\<forall>i < length offsets.
              dispatch_constant_constant intHashCRC32 seqLength UTF8 CaseInsensitive
                (column_rows data 0 offsets ! i) needle = Some (res ! i))"
  using dispatch_vector_constant_char [OF assms, of intHashCRC32 UTF8 CaseInsensitive needle]
    dispatch_constant_constant_char [OF assms(1), of intHashCRC32 UTF8 CaseInsensitive _ needle]
  by simp

theorem C3_independence_from_batching_witness:
  "(\<forall>b. 1 \<le> seqLength_table b) \<and> offsets_ok [97, 98, 99, 100, 0, 120, 0] 0 [5, 7] \<and>
   (\<exists>res. dispatch_vector_constant intHash64 seqLength_table True False
             [97, 98, 99, 100, 0, 120, 0] [5, 7] [97, 98, 99] = Some res \<and>
           length res = length [5, 7 :: UInt64] \<and>
           (\<forall>i < length [5, 7 :: UInt64].
              dispatch_constant_constant intHash64 seqLength_table True False
                (column_rows [97, 98, 99, 100, 0, 120, 0] 0 [5, 7] ! i) [97, 98, 99] = Some (res ! i)))"
proof -
  have h1: "\<forall>b. 1 \<le> seqLength_table b" by (rule seqLength_table_pos)
  have h2: "offsets_ok [97, 98, 99, 100, 0, 120, 0] 0 [5, 7]" by simp
  show ?thesis
    using h1 h2 C3_independence_from_batching [OF h1 h2, of intHash64 True False "[97, 98, 99]"]
    by blast
qed

text \<open>
  Claim C4 (range) does not hold of the code in the UTF-8 instantiations, in its part on
  the running \<open>distance\<close>. The needle \<open>E2 82 AC\<close> is one unit and has no 3-gram, but it
  passes the guard \<open>if (size < N) return 0\<close> of \<open>calculateNeedleStats\<close> (a test on bytes,
  commented \<open>To prevent size_t overflow below\<close>) and the pass returns \<open>2 ^ 64 - 1\<close>. The
  drivers start \<open>distance\<close> at that value: with the haystack \<open>abc\<close> (one 3-gram) it
  exceeds the number of n-grams of the needle plus that of the haystack, \<open>0 + 1\<close>, and the
  one \<open>++distance\<close> of the haystack pass wraps it to 0. The range of the results themselves
  is not affected (\<open>results_in_unit_interval\<close> below).
\<close>

theorem C4_running_distance_exceeds_counts:
  "dispatch_calculateNeedleStats intHash64 seqLength_table True False
     ([0xE2, 0x82, 0xAC] @ replicate default_padding 0) 0 3 (\<lambda>_. 0)
     = Some (18446744073709551615, \<lambda>_. 0) \<and>
   ngram_hashes intHash64 seqLength_table True False [0xE2, 0x82, 0xAC] = [] \<and>
   length (ngram_hashes intHash64 seqLength_table True False [97, 98, 99]) = 1 \<and>
   length (ngram_hashes intHash64 seqLength_table True False [0xE2, 0x82, 0xAC])
     + length (ngram_hashes intHash64 seqLength_table True False [97, 98, 99])
     < unat (18446744073709551615 :: UInt64) \<and>
   dispatch_calculateHaystackStatsAndMetric intHash64 seqLength_table True False
     ([97, 98, 99] @ replicate default_padding 0) 0 3 (\<lambda>_. 0) 18446744073709551615
     = Some (1, \<lambda>_. 0, 0)"
proof -
  have a: "length (ngram_hashes intHash64 seqLength_table True False [97, 98, 99]) = 1"
    by (simp add: length_ngram_hashes units_abc ngram_N_def)
  have "length (ngram_hashes intHash64 seqLength_table True False [0xE2, 0x82, 0xAC]) = 0"
    by (simp add: length_ngram_hashes units_euro ngram_N_def)
  then have e: "ngram_hashes intHash64 seqLength_table True False [0xE2, 0x82, 0xAC] = []" by simp
  have l3: "length [0xE2, 0x82, 0xAC :: UInt8] = 3" by simp
  have m1: "(- 1 :: UInt64) = 18446744073709551615" by simp
  have n: "dispatch_calculateNeedleStats intHash64 seqLength_table True False
     ([0xE2, 0x82, 0xAC] @ replicate default_padding 0) 0 3 (\<lambda>_. 0)
     = Some (18446744073709551615, \<lambda>_. 0)"
    using dispatch_needle_pass [OF seqLength_table_pos, of intHash64 True False "[0xE2, 0x82, 0xAC]",
        unfolded l3 needle_stats_euro m1] .
  have l3': "length [97, 98, 99 :: UInt8] = 3" by simp
  have s: "snd (score (ngram_hashes intHash64 seqLength_table True False [97, 98, 99])
                 (\<lambda>_. 0, 18446744073709551615)) = 0"
    by (subst score_zero_table) (simp_all add: a)
  have h: "dispatch_calculateHaystackStatsAndMetric intHash64 seqLength_table True False
     ([97, 98, 99] @ replicate default_padding 0) 0 3 (\<lambda>_. 0) 18446744073709551615
     = Some (1, \<lambda>_. 0, 0)"
    using dispatch_haystack_padded [OF seqLength_table_pos, of intHash64 True False "[97, 98, 99]"
        "\<lambda>_. 0" 18446744073709551615, unfolded l3' a s] by simp
  have u: "length (ngram_hashes intHash64 seqLength_table True False [0xE2, 0x82, 0xAC])
     + length (ngram_hashes intHash64 seqLength_table True False [97, 98, 99])
     < unat (18446744073709551615 :: UInt64)"
    by (simp add: a e)
  show ?thesis using n e a u h by blast
qed

text \<open>
  Claim C5 (oversize cutoff). A haystack of more than \<open>max_string_size = 32768\<close> bytes gets
  the literal \<open>1.f\<close>, whatever the needle, in \<open>constant_constant\<close> and in every row of
  \<open>vector_constant\<close>; a haystack of exactly 32768 bytes gets a quotient from the scoring
  path. \<open>Float32_one\<close> is produced only by the branch that does not call the scorer.
\<close>

theorem C5_oversize_cutoff:
  assumes "\<forall>b. 1 \<le> seqLength b"
  shows "(max_string_size < length B \<longrightarrow>
            dispatch_constant_constant intHashCRC32 seqLength UTF8 CaseInsensitive B A
              = Some Float32_one) \<and>
         (length B = max_string_size \<longrightarrow>
            (\<exists>distance m. dispatch_constant_constant intHashCRC32 seqLength UTF8 CaseInsensitive B A
              = Some (Float32_div distance m))) \<and>
         (offsets_ok data 0 offsets \<longrightarrow>
            (\<exists>res. dispatch_vector_constant intHashCRC32 seqLength UTF8 CaseInsensitive data offsets A
                 = Some res \<and> length res = length offsets \<and>
               (\<forall>i < length offsets.
                  (max_string_size < length (column_rows data 0 offsets ! i)
                     \<longrightarrow> res ! i = Float32_one) \<and>
                  (length (column_rows data 0 offsets ! i) = max_string_size
                     \<longrightarrow> (\<exists>distance m. res ! i = Float32_div distance m)))))"
  using dispatch_vector_constant_char [OF assms, of data offsets intHashCRC32 UTF8 CaseInsensitive A]
    dispatch_constant_constant_char [OF assms, of intHashCRC32 UTF8 CaseInsensitive B A]
  by (simp add: dispatch_row_result_def)

theorem C5_oversize_cutoff_witness:
  "(\<forall>b. 1 \<le> seqLength_table b) \<and>
   (max_string_size < length (replicate 32769 (0::UInt8)) \<and>
      dispatch_constant_constant intHash64 seqLength_table False False (replicate 32769 0) [97, 98, 99, 100]
        = Some Float32_one) \<and>
   (length (replicate 32768 (0::UInt8)) = max_string_size \<and>
      (\<exists>distance m. dispatch_constant_constant intHash64 seqLength_table False False
          (replicate 32768 0) [97, 98, 99, 100] = Some (Float32_div distance m))) \<and>
   (offsets_ok (replicate 65539 0) 0 [32770, 65539] \<and>
      (\<exists>res. dispatch_vector_constant intHash64 seqLength_table False False (replicate 65539 0)
                [32770, 65539] [97, 98, 99, 100] = Some res \<and>
         res ! 0 = Float32_one \<and> (\<exists>distance m. res ! 1 = Float32_div distance m)))"
proof -
  have h1: "\<forall>b. 1 \<le> seqLength_table b" by (rule seqLength_table_pos)
  have a: "max_string_size < length (replicate 32769 (0::UInt8))" by (simp add: max_string_size_def)
  have b: "length (replicate 32768 (0::UInt8)) = max_string_size" by (simp add: max_string_size_def)
  have c: "offsets_ok (replicate 65539 0) 0 [32770, 65539]" by simp
  have r0: "max_string_size < length (column_rows (replicate 65539 0) 0 [32770, 65539] ! 0)"
    by (simp add: max_string_size_def)
  have r1: "length (column_rows (replicate 65539 0) 0 [32770, 65539] ! 1) = max_string_size"
    by (simp add: max_string_size_def)
  note t1 = C5_oversize_cutoff [OF h1, of "replicate 32769 0" intHash64 False False "[97, 98, 99, 100]"
      "replicate 65539 0" "[32770, 65539]"]
  note t2 = C5_oversize_cutoff [OF h1, of "replicate 32768 0" intHash64 False False "[97, 98, 99, 100]"
      "replicate 65539 0" "[32770, 65539]"]
  have p1: "dispatch_constant_constant intHash64 seqLength_table False False (replicate 32769 0) [97, 98, 99, 100]
        = Some Float32_one" using t1 a by blast
  have p2: "\<exists>distance m. dispatch_constant_constant intHash64 seqLength_table False False
          (replicate 32768 0) [97, 98, 99, 100] = Some (Float32_div distance m)" using t2 b by blast
  obtain res where res: "dispatch_vector_constant intHash64 seqLength_table False False (replicate 65539 0)
                [32770, 65539] [97, 98, 99, 100] = Some res"
     and all: "\<forall>i < length [32770, 65539 :: UInt64].
                  (max_string_size < length (column_rows (replicate 65539 0) 0 [32770, 65539] ! i)
                     \<longrightarrow> res ! i = Float32_one) \<and>
                  (length (column_rows (replicate 65539 0) 0 [32770, 65539] ! i) = max_string_size
                     \<longrightarrow> (\<exists>distance m. res ! i = Float32_div distance m))"
    using t1 c by blast
  have "res ! 0 = Float32_one" using all r0 by simp
  moreover have "\<exists>distance m. res ! 1 = Float32_div distance m" using all r1 by simp
  ultimately show ?thesis using h1 a b c p1 p2 res by blast
qed

text \<open>
  Claim C6 (symmetry) does not hold of the code in the UTF-8 instantiations, by the same
  defect: with the euro sign as needle and \<open>abc\<close> as haystack the result is \<open>0 / 1\<close>, with
  the roles swapped it is \<open>1 / 1\<close>.
\<close>

theorem C6_asymmetry:
  "dispatch_constant_constant intHash64 seqLength_table True False [97, 98, 99] [0xE2, 0x82, 0xAC]
     = Some (Float32_div 0 1) \<and>
   dispatch_constant_constant intHash64 seqLength_table True False [0xE2, 0x82, 0xAC] [97, 98, 99]
     = Some (Float32_div 1 1)"
proof -
  have a: "length (ngram_hashes intHash64 seqLength_table True False [97, 98, 99]) = 1"
    by (simp add: length_ngram_hashes units_abc ngram_N_def)
  have e: "ngram_hashes intHash64 seqLength_table True False [0xE2, 0x82, 0xAC] = []"
    using length_ngram_hashes [of intHash64 seqLength_table True False "[0xE2, 0x82, 0xAC]"]
    by (simp add: units_euro ngram_N_def)
  obtain h where ns: "dispatch_needle_stats intHash64 seqLength_table True False [97, 98, 99]
      = (1, (\<lambda>_. 0)(h := 1))" using needle_stats_abc by blast
  have "dispatch_constant_constant intHash64 seqLength_table True False [97, 98, 99] [0xE2, 0x82, 0xAC]
     = Some (Float32_div 0 1)"
    using result_on_needle_euro [of "[97, 98, 99]"] by (simp add: a max_string_size_def)
  moreover have "dispatch_constant_constant intHash64 seqLength_table True False [0xE2, 0x82, 0xAC] [97, 98, 99]
     = Some (Float32_div 1 1)"
    by (simp add: dispatch_constant_constant_char [OF seqLength_table_pos] ns
        dispatch_row_result_def e max_string_size_def)
  ultimately show ?thesis by blast
qed


text \<open>
  Claim C8, as amended (needle accumulation count). Take a needle buffer with the required
  padding and a size below \<open>2 ^ 64\<close>. A needle shorter than \<open>N\<close> bytes returns 0 and leaves
  the table untouched. A needle that is shorter than \<open>N\<close> bytes or holds at least \<open>N - 1\<close>
  code-point units (every ASCII needle; every UTF-8 needle of two or more units) returns
  \<open>max(0, len_in_units - N + 1)\<close>, the number of its n-grams; from a zeroed table every
  entry then holds the number of occurrences of its hash among the needle's n-grams modulo
  65536, and the entries sum to the returned count when no hash occurs 65536 times or more.
  Nothing is said here about a UTF-8 needle of \<open>N\<close> bytes or more that is a single unit.
\<close>

theorem C8_needle_accumulation_count:
  fixes intHashCRC32 seqLength UTF8 CaseInsensitive buf data size'
  defines "needle \<equiv> take size' (drop data buf)"
  defines "hs \<equiv> ngram_hashes intHashCRC32 seqLength UTF8 CaseInsensitive needle"
    and "len_in_units \<equiv> unit_count seqLength UTF8 CaseInsensitive needle"
  assumes "\<forall>b. 1 \<le> seqLength b" and "data + size' + default_padding \<le> length buf"
    and "size' < 2 ^ 64"
  shows "(size' < ngram_N UTF8 \<longrightarrow>
            dispatch_calculateNeedleStats intHashCRC32 seqLength UTF8 CaseInsensitive buf data size'
              ngram_stats = Some (0, ngram_stats)) \<and>
         (size' < ngram_N UTF8 \<or> ngram_N UTF8 - 1 \<le> len_in_units \<longrightarrow>
            (\<exists>len ngram_stats'.
               dispatch_calculateNeedleStats intHashCRC32 seqLength UTF8 CaseInsensitive buf data
                 size' (\<lambda>_. 0) = Some (len, ngram_stats') \<and>
               unat len = len_in_units + 1 - ngram_N UTF8 \<and>
               unat len = length hs \<and>
               (\<forall>h. ngram_stats' h = of_nat (count (mset hs) h)) \<and>
               ((\<forall>h. count (mset hs) h < 65536) \<longrightarrow>
                  (\<Sum>h\<in>UNIV. unat (ngram_stats' h)) = unat len)))"
proof (intro conjI impI)
  assume "size' < ngram_N UTF8"
  then show "dispatch_calculateNeedleStats intHashCRC32 seqLength UTF8 CaseInsensitive buf data size'
              ngram_stats = Some (0, ngram_stats)" by (rule dispatch_needle_short)
next
  assume a: "size' < ngram_N UTF8 \<or> ngram_N UTF8 - 1 \<le> len_in_units"
  have ln: "length needle = size'" using assms(5) by (simp add: needle_def)
  have lh: "length hs = len_in_units + 1 - ngram_N UTF8"
    by (simp add: hs_def len_in_units_def length_ngram_hashes)
  have ul: "len_in_units \<le> size'"
    using unit_count_le [of seqLength UTF8 CaseInsensitive needle] ln by (simp add: len_in_units_def)
  have N1: "1 \<le> ngram_N UTF8" by (simp add: ngram_N_def)
  define len where "len = (if size' < ngram_N UTF8 then 0
      else (of_nat len_in_units :: UInt64) - of_nat (ngram_N UTF8) + 1)"
  define T where "T = (\<lambda>h. of_nat (count (mset hs) h) :: UInt16)"
  have run: "dispatch_calculateNeedleStats intHashCRC32 seqLength UTF8 CaseInsensitive buf data
                 size' (\<lambda>_. 0) = Some (len, T)"
  proof (cases "size' < ngram_N UTF8")
    case True
    then have "hs = []" using ngram_hashes_short [of needle UTF8] ln by (simp add: hs_def)
    then show ?thesis using True dispatch_needle_short [OF True] by (simp add: len_def T_def)
  next
    case False
    then have n: "ngram_N UTF8 \<le> size'" by simp
    have e: "data + size' \<le> length buf" using assms(5) by simp
    show ?thesis
      using dispatch_needle_char [OF assms(4) e n, of intHashCRC32 CaseInsensitive "\<lambda>_. 0"] False
      by (simp add: len_def T_def restore_zero_count needle_def [symmetric] hs_def [symmetric]
          len_in_units_def [symmetric])
  qed
  have cnt: "unat len = len_in_units + 1 - ngram_N UTF8"
  proof (cases "size' < ngram_N UTF8")
    case True
    then show ?thesis using ul by (simp add: len_def)
  next
    case False
    then have "ngram_N UTF8 - 1 \<le> len_in_units" using a by simp
    moreover have "len_in_units < 2 ^ 64" using ul assms(6) by simp
    ultimately show ?thesis using False N1 by (simp add: len_def needle_count_word)
  qed
  have sm: "(\<Sum>h\<in>UNIV. unat (T h)) = unat len" if "\<forall>h. count (mset hs) h < 65536"
    using sum_table_counts [OF that] cnt lh by (simp add: T_def)
  show "\<exists>len ngram_stats'.
               dispatch_calculateNeedleStats intHashCRC32 seqLength UTF8 CaseInsensitive buf data
                 size' (\<lambda>_. 0) = Some (len, ngram_stats') \<and>
               unat len = len_in_units + 1 - ngram_N UTF8 \<and>
               unat len = length hs \<and>
               (\<forall>h. ngram_stats' h = of_nat (count (mset hs) h)) \<and>
               ((\<forall>h. count (mset hs) h < 65536) \<longrightarrow>
                  (\<Sum>h\<in>UNIV. unat (ngram_stats' h)) = unat len)"
    using run cnt lh sm by (intro exI [of _ len] exI [of _ T]) (simp add: T_def)
qed

theorem C8_needle_accumulation_count_witness:
  "(\<forall>b. 1 \<le> seqLength_table b) \<and>
   (0::nat) + 2 + default_padding \<le> length ([97, 98] @ replicate 16 (0::UInt8)) \<and>
   (2::nat) < 2 ^ 64 \<and> 2 < ngram_N False \<and>
   dispatch_calculateNeedleStats intHash64 seqLength_table False False
     ([97, 98] @ replicate 16 0) 0 2 (\<lambda>_. 7) = Some (0, \<lambda>_. 7) \<and>
   (0::nat) + 5 + default_padding \<le> length ([97, 98, 99, 100, 101] @ replicate 16 (0::UInt8)) \<and>
   (5::nat) < 2 ^ 64 \<and>
   ngram_N False - 1 \<le> unit_count seqLength_table False False
       (take 5 (drop 0 ([97, 98, 99, 100, 101] @ replicate 16 0))) \<and>
   (\<forall>h. count (mset (ngram_hashes intHash64 seqLength_table False False
          (take 5 (drop 0 ([97, 98, 99, 100, 101] @ replicate 16 0))))) h < 65536) \<and>
   (\<exists>len ngram_stats'.
      dispatch_calculateNeedleStats intHash64 seqLength_table False False
        ([97, 98, 99, 100, 101] @ replicate 16 0) 0 5 (\<lambda>_. 0) = Some (len, ngram_stats') \<and>
      unat len = 2 \<and> (\<Sum>h\<in>UNIV. unat (ngram_stats' h)) = unat len)"
proof -
  have h1: "\<forall>b. 1 \<le> seqLength_table b" by (rule seqLength_table_pos)
  have a2: "(0::nat) + 2 + default_padding \<le> length ([97, 98] @ replicate 16 (0::UInt8))"
    by (simp add: default_padding_def)
  have a3: "(2::nat) < 2 ^ 64" by simp
  have a4: "2 < ngram_N False" by (simp add: ngram_N_def)
  have b2: "(0::nat) + 5 + default_padding \<le> length ([97, 98, 99, 100, 101] @ replicate 16 (0::UInt8))"
    by (simp add: default_padding_def)
  have b3: "(5::nat) < 2 ^ 64" by simp
  have tk: "take 5 (drop 0 ([97, 98, 99, 100, 101] @ replicate 16 (0::UInt8))) = [97, 98, 99, 100, 101]"
    by simp
  have b4: "ngram_N False - 1 \<le> unit_count seqLength_table False False
       (take 5 (drop 0 ([97, 98, 99, 100, 101] @ replicate 16 0)))"
    unfolding tk by (simp add: ngram_N_def unit_count_def ascii_units_def)
  have uc: "unit_count seqLength_table False False
       (take 5 (drop 0 ([97, 98, 99, 100, 101] @ replicate 16 0))) + 1 - ngram_N False = 2"
    unfolding tk by (simp add: ngram_N_def unit_count_def ascii_units_def)
  have "\<forall>h. count (mset (ngram_hashes intHash64 seqLength_table False False
          (take 5 (drop 0 ([97, 98, 99, 100, 101] @ replicate 16 0))))) h < 32768"
    unfolding tk by (rule count_ngram_hashes_bound) (simp add: max_string_size_def)
  moreover have "\<And>n::nat. n < 32768 \<Longrightarrow> n < 65536" by simp
  ultimately have b5: "\<forall>h. count (mset (ngram_hashes intHash64 seqLength_table False False
          (take 5 (drop 0 ([97, 98, 99, 100, 101] @ replicate 16 0))))) h < 65536"
    by blast
  note A = C8_needle_accumulation_count [OF h1 a2 a3, of False intHash64 False "\<lambda>_. 7"]
  note B = C8_needle_accumulation_count [OF h1 b2 b3, of False intHash64 False "\<lambda>_. 0"]
  have r1: "dispatch_calculateNeedleStats intHash64 seqLength_table False False
     ([97, 98] @ replicate 16 0) 0 2 (\<lambda>_. 7) = Some (0, \<lambda>_. 7)" using A a4 by blast
  obtain len T where run: "dispatch_calculateNeedleStats intHash64 seqLength_table False False
        ([97, 98, 99, 100, 101] @ replicate 16 0) 0 5 (\<lambda>_. 0) = Some (len, T)"
    and ul: "unat len = unit_count seqLength_table False False
       (take 5 (drop 0 ([97, 98, 99, 100, 101] @ replicate 16 0))) + 1 - ngram_N False"
    and sm: "(\<forall>h. count (mset (ngram_hashes intHash64 seqLength_table False False
          (take 5 (drop 0 ([97, 98, 99, 100, 101] @ replicate 16 0))))) h < 65536) \<longrightarrow>
        (\<Sum>h\<in>UNIV. unat (T h)) = unat len"
    using B b4 by blast
  have r2: "\<exists>len ngram_stats'.
      dispatch_calculateNeedleStats intHash64 seqLength_table False False
        ([97, 98, 99, 100, 101] @ replicate 16 0) 0 5 (\<lambda>_. 0) = Some (len, ngram_stats') \<and>
      unat len = 2 \<and> (\<Sum>h\<in>UNIV. unat (ngram_stats' h)) = unat len"
    using run ul sm b5 uc by (intro exI [of _ len] exI [of _ T]) simp
  show ?thesis using h1 a2 a3 a4 b2 b3 b4 b5 r1 r2 by blast
qed

text \<open>
  The claim as stated fails for long needles, since the counters have 16 bits and the
  needle has no size limit: the ASCII needle of 65539 bytes \<open>a\<close> has the 4-gram \<open>aaaa\<close> 65536
  times; the pass returns 65536 and leaves every counter at 0.
\<close>

theorem C8_counterexample:
  "dispatch_calculateNeedleStats intHash64 seqLength_table False False
     (replicate 65539 97 @ replicate default_padding 0) 0 65539 (\<lambda>_. 0) = Some (65536, \<lambda>_. 0)"
proof -
  have nh: "ngram_hashes intHash64 seqLength_table False False (replicate 65539 97)
      = replicate 65536 (ASCIIHash intHash64 (replicate 4 97))"
    by (simp add: ngram_hashes_def ascii_units_def ngrams_replicate)
  have z: "(65536 :: UInt16) = 0" by simp
  have t: "restore (replicate 65536 (ASCIIHash intHash64 (replicate 4 97))) (\<lambda>_. 0) = (\<lambda>_. 0)"
    unfolding restore_replicate by (rule ext) (simp add: z)
  have "dispatch_needle_stats intHash64 seqLength_table False False (replicate 65539 97)
      = (65536, \<lambda>_. 0)"
    by (simp add: dispatch_needle_stats_def nh t ngram_N_def unit_count_def ascii_units_def)
  then show ?thesis
    using dispatch_needle_pass [OF seqLength_table_pos, of intHash64 False False "replicate 65539 97"]
    by simp
qed

text \<open>
  Claim C9 (short-input handling) does not hold of the code in the UTF-8 instantiations.
  \<open>calculateNeedleStats\<close> guards \<open>len = -N + 1; len += found - N + 1\<close> against wrap-around
  with \<open>if (size < N) return 0\<close>, a test on bytes; a UTF-8 needle of three bytes or more
  that is a single unit (the euro sign, \<open>E2 82 AC\<close>) passes the test with one unit, and the
  pass returns \<open>1 - 3 + 1 = 2 ^ 64 - 1\<close> instead of 0. Against the haystack \<open>abc\<close> (one
  3-gram) the result is \<open>0 / 1\<close>, where the claim says \<open>1.0\<close>; against the empty haystack it
  is \<open>(2 ^ 64 - 1) / (2 ^ 64 - 1)\<close>, where the claim says \<open>0.0\<close>.
\<close>

theorem C9_short_needle_divergence:
  "dispatch_constant_constant intHash64 seqLength_table True False [97, 98, 99] [0xE2, 0x82, 0xAC]
     = Some (Float32_div 0 1) \<and>
   dispatch_constant_constant intHash64 seqLength_table True False [] [0xE2, 0x82, 0xAC]
     = Some (Float32_div 18446744073709551615 18446744073709551615) \<and>
   dispatch_calculateNeedleStats intHash64 seqLength_table True False
     ([0xE2, 0x82, 0xAC] @ replicate default_padding 0) 0 3 (\<lambda>_. 0)
     = Some (18446744073709551615, \<lambda>_. 0)"
proof -
  have a: "length (ngram_hashes intHash64 seqLength_table True False [97, 98, 99]) = 1"
    by (simp add: length_ngram_hashes units_abc ngram_N_def)
  have b: "length (ngram_hashes intHash64 seqLength_table True False []) = 0"
    using length_ngram_hashes_le [of intHash64 seqLength_table True False "[]"] by simp
  have "dispatch_constant_constant intHash64 seqLength_table True False [97, 98, 99] [0xE2, 0x82, 0xAC]
     = Some (Float32_div 0 1)"
    using result_on_needle_euro [of "[97, 98, 99]"] by (simp add: a max_string_size_def)
  moreover have "dispatch_constant_constant intHash64 seqLength_table True False [] [0xE2, 0x82, 0xAC]
     = Some (Float32_div 18446744073709551615 18446744073709551615)"
    using result_on_needle_euro [of "[]"] by (simp add: b max_string_size_def)
  moreover have "dispatch_calculateNeedleStats intHash64 seqLength_table True False
     ([0xE2, 0x82, 0xAC] @ replicate default_padding 0) 0 3 (\<lambda>_. 0)
     = Some (18446744073709551615, \<lambda>_. 0)"
  proof -
    have l3: "length [0xE2, 0x82, 0xAC :: UInt8] = 3" by simp
    have m1: "(- 1 :: UInt64) = 18446744073709551615" by simp
    show ?thesis
      using dispatch_needle_pass [OF seqLength_table_pos, of intHash64 True False "[0xE2, 0x82, 0xAC]",
          unfolded l3 needle_stats_euro m1] .
  qed
  ultimately show ?thesis by blast
qed

text \<open>
  Claim C10 (no size check on the needle). For a needle of any length the needle pass
  returns, and its table is the zeroed table incremented once for every n-gram hash of the
  whole needle. Every haystack of at most \<open>max_string_size\<close> bytes, alone or as a row of a
  column, is then scored on that table by the normal formula: the result is the distance
  the haystack pass returns over \<open>max(first_size + second_size, 1)\<close>. Only the haystack's
  length selects the fast path.
\<close>

theorem C10_no_needle_size_check:
  assumes "\<forall>b. 1 \<le> seqLength b"
  shows "\<exists>second_size common_stats.
     dispatch_calculateNeedleStats intHashCRC32 seqLength UTF8 CaseInsensitive
       (needle @ replicate default_padding 0) 0 (length needle) (\<lambda>_. 0)
       = Some (second_size, common_stats) \<and>
     common_stats = restore (ngram_hashes intHashCRC32 seqLength UTF8 CaseInsensitive needle) (\<lambda>_. 0) \<and>
     (length data \<le> max_string_size \<longrightarrow>
        (\<exists>first_size distance.
           dispatch_calculateHaystackStatsAndMetric intHashCRC32 seqLength UTF8 CaseInsensitive
             (data @ replicate default_padding 0) 0 (length data) common_stats second_size
             = Some (first_size, common_stats, distance) \<and>
           dispatch_constant_constant intHashCRC32 seqLength UTF8 CaseInsensitive data needle
             = Some (Float32_div distance (max (first_size + second_size) 1)))) \<and>
     (offsets_ok column 0 offsets \<longrightarrow>
        (\<exists>res. dispatch_vector_constant intHashCRC32 seqLength UTF8 CaseInsensitive column offsets
                  needle = Some res \<and> length res = length offsets \<and>
           (\<forall>i < length offsets. length (column_rows column 0 offsets ! i) \<le> max_string_size \<longrightarrow>
              (\<exists>first_size distance.
                 dispatch_calculateHaystackStatsAndMetric intHashCRC32 seqLength UTF8 CaseInsensitive
                   (column_rows column 0 offsets ! i @ replicate default_padding 0) 0
                   (length (column_rows column 0 offsets ! i)) common_stats second_size
                   = Some (first_size, common_stats, distance) \<and>
                 res ! i = Float32_div distance (max (first_size + second_size) 1)))))"
proof -
  obtain c T where ns: "dispatch_needle_stats intHashCRC32 seqLength UTF8 CaseInsensitive needle = (c, T)"
    by (cases "dispatch_needle_stats intHashCRC32 seqLength UTF8 CaseInsensitive needle") auto
  have T: "T = restore (ngram_hashes intHashCRC32 seqLength UTF8 CaseInsensitive needle) (\<lambda>_. 0)"
    using dispatch_needle_table [of intHashCRC32 seqLength UTF8 CaseInsensitive needle] ns by simp
  have hp: "\<And>row. dispatch_calculateHaystackStatsAndMetric intHashCRC32 seqLength UTF8 CaseInsensitive
             (row @ replicate default_padding 0) 0 (length row) T c
             = Some (of_nat (length (ngram_hashes intHashCRC32 seqLength UTF8 CaseInsensitive row)), T,
                 snd (score (ngram_hashes intHashCRC32 seqLength UTF8 CaseInsensitive row) (T, c)))"
    using dispatch_haystack_pass [OF assms, of 0 _ "_ @ replicate default_padding 0"] by simp
  have np: "dispatch_calculateNeedleStats intHashCRC32 seqLength UTF8 CaseInsensitive
       (needle @ replicate default_padding 0) 0 (length needle) (\<lambda>_. 0) = Some (c, T)"
    using dispatch_needle_pass [OF assms, of intHashCRC32 UTF8 CaseInsensitive needle] ns by simp
  have cc: "length data \<le> max_string_size \<Longrightarrow>
      dispatch_constant_constant intHashCRC32 seqLength UTF8 CaseInsensitive data needle
        = Some (Float32_div (snd (score (ngram_hashes intHashCRC32 seqLength UTF8 CaseInsensitive data) (T, c)))
             (max (of_nat (length (ngram_hashes intHashCRC32 seqLength UTF8 CaseInsensitive data)) + c) 1))"
    using dispatch_constant_constant_char [OF assms, of intHashCRC32 UTF8 CaseInsensitive data needle]
    by (simp add: ns dispatch_row_result_def)
  have vc: "offsets_ok column 0 offsets \<Longrightarrow>
      dispatch_vector_constant intHashCRC32 seqLength UTF8 CaseInsensitive column offsets needle
        = Some (map (dispatch_row_result intHashCRC32 seqLength UTF8 CaseInsensitive (c, T))
             (column_rows column 0 offsets))"
    using dispatch_vector_constant_char [OF assms, of column offsets intHashCRC32 UTF8 CaseInsensitive needle]
    by (simp add: ns)
  show ?thesis
    apply (rule exI [of _ c], rule exI [of _ T])
    apply (intro conjI impI)
       apply (rule np)
      apply (rule T)
     apply (simp add: hp cc)
    apply (simp add: vc hp dispatch_row_result_def)
    done
qed

theorem C10_no_needle_size_check_witness:
  "(\<forall>b. 1 \<le> seqLength_table b) \<and>
   length [97, 98, 99, 100 :: UInt8] \<le> max_string_size \<and>
   offsets_ok [97, 98, 99, 100, 0, 120, 0] 0 [5, 7] \<and>
   (\<exists>second_size common_stats.
     dispatch_calculateNeedleStats intHash64 seqLength_table False False
       (replicate 32769 97 @ replicate default_padding 0) 0 (length (replicate 32769 (97::UInt8))) (\<lambda>_. 0)
       = Some (second_size, common_stats) \<and>
     common_stats = restore (ngram_hashes intHash64 seqLength_table False False (replicate 32769 97)) (\<lambda>_. 0) \<and>
     (\<exists>first_size distance.
           dispatch_calculateHaystackStatsAndMetric intHash64 seqLength_table False False
             ([97, 98, 99, 100] @ replicate default_padding 0) 0 (length [97, 98, 99, 100 :: UInt8])
             common_stats second_size
             = Some (first_size, common_stats, distance) \<and>
           dispatch_constant_constant intHash64 seqLength_table False False [97, 98, 99, 100]
             (replicate 32769 97)
             = Some (Float32_div distance (max (first_size + second_size) 1))) \<and>
     (\<exists>res. dispatch_vector_constant intHash64 seqLength_table False False
                [97, 98, 99, 100, 0, 120, 0] [5, 7] (replicate 32769 97) = Some res \<and>
             length res = length [5, 7 :: UInt64]))"
proof -
  have h1: "\<forall>b. 1 \<le> seqLength_table b" by (rule seqLength_table_pos)
  have h2: "length [97, 98, 99, 100 :: UInt8] \<le> max_string_size" by (simp add: max_string_size_def)
  have h3: "offsets_ok [97, 98, 99, 100, 0, 120, 0] 0 [5, 7]" by simp
  show ?thesis
    using h1 h2 h3 C10_no_needle_size_check [OF h1, of intHash64 False False "replicate 32769 97"
        "[97, 98, 99, 100]" "[97, 98, 99, 100, 0, 120, 0]" "[5, 7]"]
    by blast
qed

section \<open>The range of the results\<close>

text \<open>
  For every needle shorter than \<open>2 ^ 63\<close> bytes and every haystack, the result of
  \<open>constant_constant\<close> and every row result of \<open>vector_constant\<close> on a column whose offsets
  increase inside the buffer is \<open>1.f\<close> or a quotient whose value lies in \<open>[0, 1]\<close>
  (\<open>Float32_value\<close>: the quotient of the two integer operands, before rounding). This
  holds also where the needle count has wrapped.
\<close>

theorem results_in_unit_interval:
  assumes "\<forall>b. 1 \<le> seqLength b" and "length needle < 2 ^ 63"
  shows "(\<exists>r. dispatch_constant_constant intHashCRC32 seqLength UTF8 CaseInsensitive data needle = Some r
             \<and> 0 \<le> Float32_value r \<and> Float32_value r \<le> 1) \<and>
         (offsets_ok column 0 offsets \<longrightarrow>
            (\<exists>res. dispatch_vector_constant intHashCRC32 seqLength UTF8 CaseInsensitive column offsets
                      needle = Some res \<and> length res = length offsets \<and>
               (\<forall>i < length offsets. 0 \<le> Float32_value (res ! i) \<and> Float32_value (res ! i) \<le> 1)))"
proof (intro conjI impI)
  show "\<exists>r. dispatch_constant_constant intHashCRC32 seqLength UTF8 CaseInsensitive data needle = Some r
             \<and> 0 \<le> Float32_value r \<and> Float32_value r \<le> 1"
    using row_result_range [OF assms(2), of intHashCRC32 seqLength UTF8 CaseInsensitive data]
    by (simp add: dispatch_constant_constant_char [OF assms(1)])
next
  assume wf: "offsets_ok column 0 offsets"
  show "\<exists>res. dispatch_vector_constant intHashCRC32 seqLength UTF8 CaseInsensitive column offsets
                      needle = Some res \<and> length res = length offsets \<and>
               (\<forall>i < length offsets. 0 \<le> Float32_value (res ! i) \<and> Float32_value (res ! i) \<le> 1)"
    using row_result_range [OF assms(2), of intHashCRC32 seqLength UTF8 CaseInsensitive]
    by (simp add: dispatch_vector_constant_char [OF assms(1) wf])
qed

theorem results_in_unit_interval_witness:
  "(\<forall>b. 1 \<le> seqLength_table b) \<and> length [0xE2, 0x82, 0xAC :: UInt8] < 2 ^ 63 \<and>
   offsets_ok [97, 98, 99, 100, 0, 120, 0] 0 [5, 7] \<and>
   (\<exists>r. dispatch_constant_constant intHash64 seqLength_table True False [97, 98, 99]
           [0xE2, 0x82, 0xAC] = Some r \<and> 0 \<le> Float32_value r \<and> Float32_value r \<le> 1) \<and>
   (\<exists>res. dispatch_vector_constant intHash64 seqLength_table True False
             [97, 98, 99, 100, 0, 120, 0] [5, 7] [0xE2, 0x82, 0xAC] = Some res \<and>
           length res = length [5, 7 :: UInt64])"
proof -
  have h1: "\<forall>b. 1 \<le> seqLength_table b" by (rule seqLength_table_pos)
  have h2: "length [0xE2, 0x82, 0xAC :: UInt8] < 2 ^ 63" by simp
  have h3: "offsets_ok [97, 98, 99, 100, 0, 120, 0] 0 [5, 7]" by simp
  note t = results_in_unit_interval [OF h1 h2, of intHash64 True False "[97, 98, 99]"
      "[97, 98, 99, 100, 0, 120, 0]" "[5, 7]"]
  have a: "\<exists>r. dispatch_constant_constant intHash64 seqLength_table True False [97, 98, 99]
           [0xE2, 0x82, 0xAC] = Some r \<and> 0 \<le> Float32_value r \<and> Float32_value r \<le> 1"
    using t by blast
  have b: "\<exists>res. dispatch_vector_constant intHash64 seqLength_table True False
             [97, 98, 99, 100, 0, 120, 0] [5, 7] [0xE2, 0x82, 0xAC] = Some res \<and>
           length res = length [5, 7 :: UInt64]"
    using t h3 by blast
  show ?thesis using h1 h2 h3 a b by blast
qed

section \<open>The running distance, symmetry and identity where the needle count has not wrapped\<close>

lemma needle_stats_regular:
  assumes "length s < ngram_N u \<or> ngram_N u - 1 \<le> unit_count sl u ci s"
  shows "fst (dispatch_needle_stats crc sl u ci s) = of_nat (length (ngram_hashes crc sl u ci s))"
proof (cases "length s < ngram_N u")
  case True
  then show ?thesis by (simp add: dispatch_needle_stats_def ngram_hashes_short)
next
  case False
  then have r: "ngram_N u - 1 \<le> unit_count sl u ci s" using assms by simp
  have "(of_nat (unit_count sl u ci s) :: UInt64) - of_nat (ngram_N u) + 1
        = of_nat (unit_count sl u ci s + 1 - ngram_N u)"
    using r by (simp add: of_nat_diff ngram_N_def split: if_splits)
  then show ?thesis using False by (simp add: dispatch_needle_stats_def length_ngram_hashes)
qed

lemma regular_result:
  assumes sl: "\<forall>b. 1 \<le> sl b"
    and d: "length data \<le> max_string_size" and n: "length needle \<le> max_string_size"
    and r: "length needle < ngram_N u \<or> ngram_N u - 1 \<le> unit_count sl u ci needle"
  shows "dispatch_constant_constant crc sl u ci data needle =
    Some (Float32_div
      (of_nat (size (mset (ngram_hashes crc sl u ci needle) - mset (ngram_hashes crc sl u ci data))
             + size (mset (ngram_hashes crc sl u ci data) - mset (ngram_hashes crc sl u ci needle))))
      (max (of_nat (length (ngram_hashes crc sl u ci data))
            + of_nat (length (ngram_hashes crc sl u ci needle))) 1))"
proof -
  define NM where "NM = mset (ngram_hashes crc sl u ci needle)"
  define hs where "hs = ngram_hashes crc sl u ci data"
  have b: "\<forall>h. count NM h < 32768" unfolding NM_def by (rule count_ngram_hashes_bound [OF n])
  have "length hs \<le> length data" unfolding hs_def by (rule length_ngram_hashes_le)
  then have l: "length hs \<le> 32768" using d by (simp add: max_string_size_def)
  have sc: "snd (score hs (\<lambda>h. of_nat (count NM h) - of_nat (count {#} h),
                    of_nat (size (NM - {#}) + size ({#} - NM)))) =
       of_nat (size (NM - ({#} + mset hs)) + size (({#} + mset hs) - NM))"
    using l by (intro score_symdiff [OF b]) simp
  have c: "fst (dispatch_needle_stats crc sl u ci needle) = of_nat (size NM)"
    using needle_stats_regular [OF r, of crc] by (simp add: NM_def)
  have T: "snd (dispatch_needle_stats crc sl u ci needle) = (\<lambda>h. of_nat (count NM h))"
    by (simp add: NM_def needle_stats_table)
  have sz: "length (ngram_hashes crc sl u ci needle) = size NM" by (simp add: NM_def)
  show ?thesis
    using sc d
    by (simp add: dispatch_constant_constant_char [OF sl] dispatch_row_result_def c T sz
        hs_def [symmetric] NM_def [symmetric])
qed

text \<open>
  The running distance where the needle count has not wrapped. For a needle shorter than
  \<open>2 ^ 63\<close> bytes that is shorter than \<open>N\<close> bytes or holds at least \<open>N - 1\<close> units, and a
  haystack of at most \<open>max_string_size\<close> bytes with n-gram hashes \<open>hs\<close>: the needle pass
  returns the number of the needle's n-grams, the haystack pass returns the distance that
  \<open>score\<close> computes, after any number \<open>j\<close> of n-grams the running \<open>distance\<close> is at most
  the number of the needle's n-grams plus \<open>j\<close>, and it is not 0 when the next step
  decrements it.
\<close>

theorem running_distance_without_wrapped_count:
  fixes intHashCRC32 seqLength UTF8 CaseInsensitive needle data
  defines "hs \<equiv> ngram_hashes intHashCRC32 seqLength UTF8 CaseInsensitive data"
  defines "ns \<equiv> ngram_hashes intHashCRC32 seqLength UTF8 CaseInsensitive needle"
  assumes "\<forall>b. 1 \<le> seqLength b" and "length needle < 2 ^ 63"
    and "length data \<le> max_string_size"
    and "length needle < ngram_N UTF8 \<or> ngram_N UTF8 - 1 \<le> unit_count seqLength UTF8 CaseInsensitive needle"
  shows "\<exists>common_stats.
           dispatch_calculateNeedleStats intHashCRC32 seqLength UTF8 CaseInsensitive
             (needle @ replicate default_padding 0) 0 (length needle) (\<lambda>_. 0)
             = Some (of_nat (length ns), common_stats) \<and>
           dispatch_calculateHaystackStatsAndMetric intHashCRC32 seqLength UTF8 CaseInsensitive
             (data @ replicate default_padding 0) 0 (length data) common_stats (of_nat (length ns))
             = Some (of_nat (length hs), common_stats,
                     snd (score hs (common_stats, of_nat (length ns)))) \<and>
           (\<forall>j \<le> length hs.
              unat (snd (score (take j hs) (common_stats, of_nat (length ns)))) \<le> length ns + j \<and>
              (j < length hs \<and>
               0 < sint (fst (score (take j hs) (common_stats, of_nat (length ns))) (hs ! j))
                 \<longrightarrow> snd (score (take j hs) (common_stats, of_nat (length ns))) \<noteq> 0))"
proof -
  obtain c T where ns: "dispatch_needle_stats intHashCRC32 seqLength UTF8 CaseInsensitive needle = (c, T)"
    by (cases "dispatch_needle_stats intHashCRC32 seqLength UTF8 CaseInsensitive needle") auto
  have c: "c = of_nat (length ns)"
    using needle_stats_regular [OF assms(6), of intHashCRC32] by (simp add: ns ns_def)
  have "length ns \<le> length needle" unfolding ns_def by (rule length_ngram_hashes_le)
  then have "length ns < 2 ^ 64" using assms(4) by simp
  then have uc: "unat c = length ns" unfolding c by (rule unat_of_nat64)
  have "length hs \<le> length data" unfolding hs_def by (rule length_ngram_hashes_le)
  then have l: "length hs \<le> 32768" using assms(5) by (simp add: max_string_size_def)
  have np: "dispatch_calculateNeedleStats intHashCRC32 seqLength UTF8 CaseInsensitive
                 (needle @ replicate default_padding 0) 0 (length needle) (\<lambda>_. 0) = Some (c, T)"
    using dispatch_needle_pass [OF assms(3), of intHashCRC32 UTF8 CaseInsensitive needle] ns by simp
  have hp: "dispatch_calculateHaystackStatsAndMetric intHashCRC32 seqLength UTF8 CaseInsensitive
                 (data @ replicate default_padding 0) 0 (length data) T c
                 = Some (of_nat (length hs), T, snd (score hs (T, c)))"
    unfolding hs_def by (rule dispatch_haystack_padded [OF assms(3)])
  have run: "unat (snd (score (take j hs) (T, c))) \<le> length ns + j \<and>
      (j < length hs \<and> 0 < sint (fst (score (take j hs) (T, c)) (hs ! j))
         \<longrightarrow> snd (score (take j hs) (T, c)) \<noteq> 0)" if j: "j \<le> length hs" for j
    using running_distance(1,2) [OF assms(4) l j, of intHashCRC32 seqLength UTF8 CaseInsensitive]
    by (simp add: ns uc)
  show ?thesis
    using np hp run unfolding c by (intro exI [of _ T]) blast
qed

theorem running_distance_without_wrapped_count_witness:
  "(\<forall>b. 1 \<le> seqLength_table b) \<and> length [97, 98, 99, 100 :: UInt8] < 2 ^ 63 \<and>
   length [97, 98, 99, 101 :: UInt8] \<le> max_string_size \<and>
   ngram_N False - 1 \<le> unit_count seqLength_table False False [97, 98, 99, 100] \<and>
   (\<exists>common_stats.
      dispatch_calculateNeedleStats intHash64 seqLength_table False False
        ([97, 98, 99, 100] @ replicate default_padding 0) 0 (length [97, 98, 99, 100 :: UInt8]) (\<lambda>_. 0)
        = Some (of_nat (length (ngram_hashes intHash64 seqLength_table False False [97, 98, 99, 100])),
                common_stats) \<and>
      unat (snd (score (take 0 (ngram_hashes intHash64 seqLength_table False False [97, 98, 99, 101]))
                   (common_stats,
                    of_nat (length (ngram_hashes intHash64 seqLength_table False False [97, 98, 99, 100])))))
        \<le> length (ngram_hashes intHash64 seqLength_table False False [97, 98, 99, 100]) + 0)"
proof -
  have h1: "\<forall>b. 1 \<le> seqLength_table b" by (rule seqLength_table_pos)
  have h2: "length [97, 98, 99, 100 :: UInt8] < 2 ^ 63" by simp
  have h3: "length [97, 98, 99, 101 :: UInt8] \<le> max_string_size" by (simp add: max_string_size_def)
  have h4: "ngram_N False - 1 \<le> unit_count seqLength_table False False [97, 98, 99, 100]"
    by (simp add: unit_count_def ngram_N_def)
  show ?thesis
    using h1 h2 h3 h4
      running_distance_without_wrapped_count [OF h1 h2 h3 disjI2 [OF h4], of intHash64]
    by blast
qed

text \<open>
  Symmetry where the needle count has not wrapped. When both strings have at most
  \<open>max_string_size\<close> bytes, and each is shorter than \<open>N\<close> bytes or holds at least \<open>N - 1\<close>
  units, exchanging the two arguments of \<open>constant_constant\<close> leaves the two operands of
  the division unchanged.
\<close>

theorem symmetry_without_wrapped_count:
  assumes "\<forall>b. 1 \<le> seqLength b"
    and "length A \<le> max_string_size" and "length B \<le> max_string_size"
    and "length A < ngram_N UTF8 \<or> ngram_N UTF8 - 1 \<le> unit_count seqLength UTF8 CaseInsensitive A"
    and "length B < ngram_N UTF8 \<or> ngram_N UTF8 - 1 \<le> unit_count seqLength UTF8 CaseInsensitive B"
  shows "dispatch_constant_constant intHashCRC32 seqLength UTF8 CaseInsensitive A B =
         dispatch_constant_constant intHashCRC32 seqLength UTF8 CaseInsensitive B A"
  by (simp add: regular_result [OF assms(1) assms(2) assms(3) assms(5)]
      regular_result [OF assms(1) assms(3) assms(2) assms(4)] add.commute)

theorem symmetry_without_wrapped_count_witness:
  "(\<forall>b. 1 \<le> seqLength_table b) \<and>
   length [97, 98, 99, 100 :: UInt8] \<le> max_string_size \<and>
   length [0xE2, 0x82, 0xAC, 97 :: UInt8] \<le> max_string_size \<and>
   ngram_N True - 1 \<le> unit_count seqLength_table True False [97, 98, 99, 100] \<and>
   ngram_N True - 1 \<le> unit_count seqLength_table True False [0xE2, 0x82, 0xAC, 97] \<and>
   dispatch_constant_constant intHash64 seqLength_table True False [97, 98, 99, 100] [0xE2, 0x82, 0xAC, 97] =
   dispatch_constant_constant intHash64 seqLength_table True False [0xE2, 0x82, 0xAC, 97] [97, 98, 99, 100]"
proof -
  have h1: "\<forall>b. 1 \<le> seqLength_table b" by (rule seqLength_table_pos)
  have h2: "length [97, 98, 99, 100 :: UInt8] \<le> max_string_size" by (simp add: max_string_size_def)
  have h3: "length [0xE2, 0x82, 0xAC, 97 :: UInt8] \<le> max_string_size" by (simp add: max_string_size_def)
  have h4: "ngram_N True - 1 \<le> unit_count seqLength_table True False [97, 98, 99, 100]"
    by (simp add: unit_count_def utf8_units_Cons seqLength_table_def ngram_N_def)
  have h5: "ngram_N True - 1 \<le> unit_count seqLength_table True False [0xE2, 0x82, 0xAC, 97]"
    by (simp add: unit_count_def utf8_units_Cons seqLength_table_def ngram_N_def)
  show ?thesis
    using h1 h2 h3 h4 h5
      symmetry_without_wrapped_count [OF h1 h2 h3 disjI2 [OF h4] disjI2 [OF h5], of intHash64]
    by blast
qed

text \<open>
  For the two ASCII instantiations every byte is a unit, so symmetry holds for all strings
  of at most \<open>max_string_size\<close> bytes.
\<close>

theorem ascii_symmetry:
  assumes "length A \<le> max_string_size" and "length B \<le> max_string_size"
  shows "dispatch_constant_constant intHashCRC32 seqLength False CaseInsensitive A B =
         dispatch_constant_constant intHashCRC32 seqLength False CaseInsensitive B A"
proof -
  have r: "length s < ngram_N False \<or> ngram_N False - 1 \<le> unit_count seqLength_table False CaseInsensitive s"
    for s by (auto simp: ngram_N_def unit_count_def)
  have ind: "dispatch_constant_constant intHashCRC32 seqLength False CaseInsensitive X Y =
      dispatch_constant_constant intHashCRC32 seqLength_table False CaseInsensitive X Y" for X Y
    by (simp add: dispatch_constant_constant_def)
  show ?thesis
    unfolding ind
    by (simp add: regular_result [OF seqLength_table_pos assms(1) assms(2) r]
        regular_result [OF seqLength_table_pos assms(2) assms(1) r] add.commute)
qed

theorem ascii_symmetry_witness:
  "length [97, 98, 99, 100, 101 :: UInt8] \<le> max_string_size \<and>
   length [97, 98 :: UInt8] \<le> max_string_size \<and>
   dispatch_constant_constant intHash64 seqLength_table False True [97, 98, 99, 100, 101] [97, 98] =
   dispatch_constant_constant intHash64 seqLength_table False True [97, 98] [97, 98, 99, 100, 101]"
proof -
  have h1: "length [97, 98, 99, 100, 101 :: UInt8] \<le> max_string_size" by (simp add: max_string_size_def)
  have h2: "length [97, 98 :: UInt8] \<le> max_string_size" by (simp add: max_string_size_def)
  show ?thesis using h1 h2 ascii_symmetry [OF h1 h2, of intHash64 seqLength_table True] by blast
qed

text \<open>
  Identity: under the same conditions the distance of a string to itself has numerator 0.
\<close>

theorem identity_without_wrapped_count:
  assumes "\<forall>b. 1 \<le> seqLength b" and "length A \<le> max_string_size"
    and "length A < ngram_N UTF8 \<or> ngram_N UTF8 - 1 \<le> unit_count seqLength UTF8 CaseInsensitive A"
  shows "\<exists>m. dispatch_constant_constant intHashCRC32 seqLength UTF8 CaseInsensitive A A
            = Some (Float32_div 0 m)"
  by (simp add: regular_result [OF assms(1) assms(2) assms(2) assms(3)])

theorem identity_without_wrapped_count_witness:
  "(\<forall>b. 1 \<le> seqLength_table b) \<and> length [97, 98, 99, 100 :: UInt8] \<le> max_string_size \<and>
   ngram_N False - 1 \<le> unit_count seqLength_table False False [97, 98, 99, 100] \<and>
   (\<exists>m. dispatch_constant_constant intHash64 seqLength_table False False [97, 98, 99, 100] [97, 98, 99, 100]
            = Some (Float32_div 0 m))"
proof -
  have h1: "\<forall>b. 1 \<le> seqLength_table b" by (rule seqLength_table_pos)
  have h2: "length [97, 98, 99, 100 :: UInt8] \<le> max_string_size" by (simp add: max_string_size_def)
  have h3: "ngram_N False - 1 \<le> unit_count seqLength_table False False [97, 98, 99, 100]"
    by (simp add: unit_count_def ngram_N_def)
  show ?thesis
    using h1 h2 h3 identity_without_wrapped_count [OF h1 h2 disjI2 [OF h3], of intHash64]
    by blast
qed

end
